theory Spec2Isabelle
  imports Main "HOL-Library.Word"
begin

section \<open>The per-cpu reader-writer semaphore: data\<close>

text \<open>
  The semaphore of \<^verbatim>\<open>lib/percpu-rwsem.c\<close>. The C type \<^verbatim>\<open>int\<close> of the counters and the
  \<^verbatim>\<open>unsigned int\<close> of \<^verbatim>\<open>val\<close> and \<^verbatim>\<open>sum\<close> are both \<open>32 word\<close>: the conversions between
  them keep the bits, \<open>+\<close> wraps, \<open>sint\<close> reads a counter as the \<^verbatim>\<open>int\<close> it is and
  \<open>unat\<close> as \<^verbatim>\<open>unsigned int\<close>.
\<close>

type_synonym cpu = nat
type_synonym tid = nat

text \<open>\<^verbatim>\<open>struct mutex\<close>: the task that holds it, if any.\<close>

type_synonym mutex = "tid option"

text \<open>\<^verbatim>\<open>struct rw_semaphore\<close>: held for writing or not, and the number of read holders.\<close>

record rw_semaphore =
  rw_writer :: bool
  rw_readers :: nat

text \<open>
  \<^verbatim>\<open>wait_queue_head_t\<close>: the tasks asleep on the queue, and how many times
  \<^verbatim>\<open>wake_up_all\<close> has been called on it.
\<close>

record wait_queue_head =
  sleepers :: "tid set"
  wakeups :: nat

text \<open>
  \<^verbatim>\<open>struct percpu_rw_semaphore\<close>. The per-cpu pointer \<^verbatim>\<open>fast_read_ctr\<close> is \<open>None\<close> when
  it is \<^verbatim>\<open>NULL\<close>, and otherwise the counters, one per possible cpu.
\<close>

record percpu_rw_semaphore =
  fast_read_ctr :: "32 word list option"
  writer_mutex :: mutex
  rw_sem :: rw_semaphore
  slow_read_ctr :: "32 word"
  write_waitq :: wait_queue_head

definition ENOMEM :: int where
  "ENOMEM = 12"

definition mutex_is_locked :: "mutex \<Rightarrow> bool" where
  "mutex_is_locked m = (m \<noteq> None)"

definition nr_cpus :: "'a percpu_rw_semaphore_scheme \<Rightarrow> nat" where
  "nr_cpus brw = (case fast_read_ctr brw of None \<Rightarrow> 0 | Some ctrs \<Rightarrow> length ctrs)"

section \<open>Construction\<close>

text \<open>
  Modelled from the spec: \<^verbatim>\<open>alloc_percpu\<close> is not among the sources. Construct
  "allocates the per-unit counter array (one slot per execution unit in the system),
  zero-initializes it", and fails "if counter storage cannot be obtained". The number of
  possible cpus and whether storage is available are parameters.
\<close>

definition alloc_percpu :: "nat \<Rightarrow> bool \<Rightarrow> 32 word list option" where
  "alloc_percpu ncpus avail = (if avail then Some (replicate ncpus 0) else None)"

text \<open>
  \<^verbatim>\<open>percpu_init_rwsem\<close>: the return value and the caller's structure afterwards.
\<close>

definition percpu_init_rwsem ::
  "nat \<Rightarrow> bool \<Rightarrow> 'a percpu_rw_semaphore_scheme \<Rightarrow> int \<times> 'a percpu_rw_semaphore_scheme" where
  "percpu_init_rwsem ncpus avail brw =
     (let brw1 = brw\<lparr>fast_read_ctr := alloc_percpu ncpus avail\<rparr> in
      if fast_read_ctr brw1 = None then (- ENOMEM, brw1)
      else
        let brw2 = brw1\<lparr>writer_mutex := None\<rparr>;
            brw3 = brw2\<lparr>rw_sem := \<lparr>rw_writer = False, rw_readers = 0\<rparr>\<rparr>;
            brw4 = brw3\<lparr>slow_read_ctr := 0\<rparr>;
            brw5 = brw4\<lparr>write_waitq := \<lparr>sleepers = {}, wakeups = 0\<rparr>\<rparr>
        in (0, brw5))"

text \<open>\<^verbatim>\<open>percpu_free_rwsem\<close>: the counters are freed and the pointer is \<^verbatim>\<open>NULL\<close>.\<close>

definition percpu_free_rwsem ::
  "'a percpu_rw_semaphore_scheme \<Rightarrow> 'a percpu_rw_semaphore_scheme" where
  "percpu_free_rwsem brw = brw\<lparr>fast_read_ctr := None\<rparr>"

section \<open>The primitive operations on the counters\<close>

text \<open>\<^verbatim>\<open>__this_cpu_add(*brw->fast_read_ctr, val)\<close> on cpu \<open>c\<close>; \<open>None\<close> is a fault.\<close>

definition this_cpu_add ::
  "cpu \<Rightarrow> 32 word \<Rightarrow> 'a percpu_rw_semaphore_scheme \<Rightarrow> 'a percpu_rw_semaphore_scheme option" where
  "this_cpu_add c val brw =
     (case fast_read_ctr brw of
        None \<Rightarrow> None
      | Some ctrs \<Rightarrow>
          if c < length ctrs then Some (brw\<lparr>fast_read_ctr := Some (ctrs[c := ctrs ! c + val])\<rparr>)
          else None)"

definition atomic_inc :: "'a percpu_rw_semaphore_scheme \<Rightarrow> 'a percpu_rw_semaphore_scheme" where
  "atomic_inc brw = brw\<lparr>slow_read_ctr := slow_read_ctr brw + 1\<rparr>"

definition atomic_add ::
  "32 word \<Rightarrow> 'a percpu_rw_semaphore_scheme \<Rightarrow> 'a percpu_rw_semaphore_scheme" where
  "atomic_add v brw = brw\<lparr>slow_read_ctr := slow_read_ctr brw + v\<rparr>"

text \<open>\<^verbatim>\<open>atomic_dec_and_test\<close>: decrement, and tell whether the result is zero.\<close>

definition atomic_dec_and_test ::
  "'a percpu_rw_semaphore_scheme \<Rightarrow> bool \<times> 'a percpu_rw_semaphore_scheme" where
  "atomic_dec_and_test brw =
     (slow_read_ctr brw - 1 = 0, brw\<lparr>slow_read_ctr := slow_read_ctr brw - 1\<rparr>)"

definition wake_up_all :: "'a percpu_rw_semaphore_scheme \<Rightarrow> 'a percpu_rw_semaphore_scheme" where
  "wake_up_all brw =
     brw\<lparr>write_waitq := \<lparr>sleepers = {}, wakeups = Suc (wakeups (write_waitq brw))\<rparr>\<rparr>"

text \<open>
  One round of the loop of \<^verbatim>\<open>clear_fast_ctr\<close>, on the running sum and the counters:
  \<^verbatim>\<open>sum += per_cpu(*brw->fast_read_ctr, cpu); per_cpu(*brw->fast_read_ctr, cpu) = 0;\<close>
\<close>

definition clear_iter :: "cpu \<Rightarrow> 32 word \<times> 32 word list \<Rightarrow> 32 word \<times> 32 word list" where
  "clear_iter c = (\<lambda>(sm, ctrs). (sm + ctrs ! c, ctrs[c := 0]))"

text \<open>
  \<^verbatim>\<open>clear_fast_ctr\<close>, run without interruption: the loop over every possible cpu, from
  \<open>sum = 0\<close>; the result is the sum and the structure with its counters cleared.
\<close>

definition clear_fast_ctr ::
  "'a percpu_rw_semaphore_scheme \<Rightarrow> (32 word \<times> 'a percpu_rw_semaphore_scheme) option" where
  "clear_fast_ctr brw =
     (case fast_read_ctr brw of
        None \<Rightarrow> None
      | Some ctrs \<Rightarrow>
          (case fold clear_iter [0..<length ctrs] (0, ctrs) of
             (sm, ctrs') \<Rightarrow> Some (sm, brw\<lparr>fast_read_ctr := Some ctrs'\<rparr>)))"

text \<open>
  The drain of \<^verbatim>\<open>percpu_down_write\<close>:
  \<^verbatim>\<open>atomic_add(clear_fast_ctr(brw), &brw->slow_read_ctr);\<close>
\<close>

definition drain ::
  "'a percpu_rw_semaphore_scheme \<Rightarrow> 'a percpu_rw_semaphore_scheme option" where
  "drain brw =
     (case clear_fast_ctr brw of
        None \<Rightarrow> None
      | Some (sm, brw') \<Rightarrow> Some (atomic_add sm brw'))"

section \<open>Tasks\<close>

text \<open>
  The four operations run concurrently in any number of tasks. A task's program counter
  says which statement of which function it executes next; one step of a task executes
  one statement (one round of the loop, in \<^verbatim>\<open>clear_fast_ctr\<close>). The local variables of a
  function are arguments of its program counters.
\<close>

text \<open>
  Inside \<^verbatim>\<open>update_fast_ctr\<close>: before \<^verbatim>\<open>preempt_disable\<close>; then, on the cpu the task
  now stays on, before the test of \<^verbatim>\<open>mutex_is_locked\<close>, before \<^verbatim>\<open>__this_cpu_add\<close>, and
  before \<^verbatim>\<open>preempt_enable\<close> with the value of \<^verbatim>\<open>success\<close>.
\<close>

datatype ufc_pc = U_disable | U_check cpu | U_add cpu | U_enable cpu bool

text \<open>Inside \<^verbatim>\<open>synchronize_sched_expedited\<close>: at the call, and waiting.\<close>

datatype sync_pc = S_call | S_wait

text \<open>
  Inside \<^verbatim>\<open>percpu_down_read\<close>: in \<^verbatim>\<open>update_fast_ctr(brw, +1)\<close>, before \<^verbatim>\<open>down_read\<close>,
  before \<^verbatim>\<open>atomic_inc\<close>, before \<^verbatim>\<open>up_read\<close>.
\<close>

datatype down_read_pc = DR_ufc ufc_pc | DR_down_read | DR_inc | DR_up_read

text \<open>
  Inside \<^verbatim>\<open>percpu_up_read\<close>: in \<^verbatim>\<open>update_fast_ctr(brw, -1)\<close>, before
  \<^verbatim>\<open>atomic_dec_and_test\<close>.
\<close>

datatype up_read_pc = UR_ufc ufc_pc | UR_dec

text \<open>
  Inside \<^verbatim>\<open>percpu_down_write\<close>: before \<^verbatim>\<open>mutex_lock\<close>; in
  \<^verbatim>\<open>synchronize_sched_expedited\<close>; in the loop of \<^verbatim>\<open>clear_fast_ctr\<close> with the values of
  \<^verbatim>\<open>cpu\<close> and \<^verbatim>\<open>sum\<close>; before \<^verbatim>\<open>atomic_add\<close> with the value \<^verbatim>\<open>clear_fast_ctr\<close> returned;
  before \<^verbatim>\<open>down_write\<close>; before \<^verbatim>\<open>wait_event\<close> tests its condition; asleep on
  \<^verbatim>\<open>write_waitq\<close>.
\<close>

datatype down_write_pc =
  DW_lock | DW_sync sync_pc | DW_clear cpu "32 word" | DW_add "32 word"
  | DW_down_write | DW_wait | DW_sleep

text \<open>
  Inside \<^verbatim>\<open>percpu_up_write\<close>: before \<^verbatim>\<open>up_write\<close>, in \<^verbatim>\<open>synchronize_sched_expedited\<close>,
  before \<^verbatim>\<open>mutex_unlock\<close>.
\<close>

datatype up_write_pc = UW_up_write | UW_sync sync_pc | UW_unlock

text \<open>
  A task is outside the semaphore (\<open>Idle\<close>), inside one of the four functions, in a read
  critical section (\<open>InRead\<close>: \<^verbatim>\<open>percpu_down_read\<close> has returned, \<^verbatim>\<open>percpu_up_read\<close> is
  not called yet) or in a write critical section (\<open>InWrite\<close>).
\<close>

datatype pc =
  Idle | DownRead down_read_pc | InRead | UpRead up_read_pc
  | DownWrite down_write_pc | InWrite | UpWrite up_write_pc

text \<open>What an idle task calls next.\<close>

datatype call = CallRead | CallWrite

text \<open>
  The system: the semaphore, the program counter of every task, and for every task inside
  \<^verbatim>\<open>synchronize_sched_expedited\<close> the tasks whose preemption-disabled section it still
  waits for.
\<close>

record system = percpu_rw_semaphore +
  pcs :: "tid \<Rightarrow> pc"
  gp_pending :: "tid \<Rightarrow> tid set"

text \<open>A scheduling event: the task that runs, the cpu it runs on, what it calls if idle.\<close>

type_synonym event = "tid \<times> cpu \<times> call"

definition set_pc :: "tid \<Rightarrow> pc \<Rightarrow> system \<Rightarrow> system" where
  "set_pc t p s = s\<lparr>pcs := (pcs s)(t := p)\<rparr>"

fun preempt_disabled :: "ufc_pc \<Rightarrow> bool" where
  "preempt_disabled U_disable = False"
| "preempt_disabled (U_check c) = True"
| "preempt_disabled (U_add c) = True"
| "preempt_disabled (U_enable c r) = True"

fun in_region :: "pc \<Rightarrow> bool" where
  "in_region (DownRead (DR_ufc u)) = preempt_disabled u"
| "in_region (UpRead (UR_ufc u)) = preempt_disabled u"
| "in_region p = False"

section \<open>The scheduler's primitives\<close>

text \<open>
  Modelled from the spec: the quiescence barrier \<^verbatim>\<open>synchronize_sched_expedited\<close> and
  \<^verbatim>\<open>preempt_enable\<close> are not among the sources. The barrier "guarantees all execution
  units have passed through a synchronization point since the call was issued": the call
  notes the tasks that are inside a preemption-disabled section at that moment, and returns
  once each of them has left that section. Memory is sequentially consistent.
\<close>

definition preempt_enable :: "tid \<Rightarrow> system \<Rightarrow> system" where
  "preempt_enable t s = s\<lparr>gp_pending := (\<lambda>w. gp_pending s w - {t})\<rparr>"

fun synchronize_sched_expedited_step ::
  "nat \<Rightarrow> tid \<Rightarrow> sync_pc \<Rightarrow> system \<Rightarrow> ((sync_pc + unit) \<times> system) option" where
  "synchronize_sched_expedited_step n t S_call s =
     Some (Inl S_wait,
       s\<lparr>gp_pending := (gp_pending s)(t := set (filter (\<lambda>u. in_region (pcs s u)) [0..<n]))\<rparr>)"
| "synchronize_sched_expedited_step n t S_wait s =
     (if gp_pending s t = {} then Some (Inr (), s) else None)"

text \<open>
  Modelled from the spec: the sleeping locks and the wait queue are not among the sources.
  \<^verbatim>\<open>mutex_lock\<close>, \<^verbatim>\<open>down_read\<close> and \<^verbatim>\<open>down_write\<close> are steps a task can take only when the
  lock is free for it (\<open>None\<close>: the task is blocked); \<^verbatim>\<open>wait_event\<close> returns when its
  condition holds and otherwise puts the task to sleep on the queue until a
  \<^verbatim>\<open>wake_up_all\<close>, after which the condition is tested again.
\<close>

definition mutex_lock :: "tid \<Rightarrow> system \<Rightarrow> system option" where
  "mutex_lock t s =
     (if mutex_is_locked (writer_mutex s) then None else Some (s\<lparr>writer_mutex := Some t\<rparr>))"

definition mutex_unlock :: "system \<Rightarrow> system" where
  "mutex_unlock s = s\<lparr>writer_mutex := None\<rparr>"

definition down_read :: "system \<Rightarrow> system option" where
  "down_read s =
     (if rw_writer (rw_sem s) then None
      else Some (s\<lparr>rw_sem := (rw_sem s)\<lparr>rw_readers := Suc (rw_readers (rw_sem s))\<rparr>\<rparr>))"

definition up_read :: "system \<Rightarrow> system" where
  "up_read s = s\<lparr>rw_sem := (rw_sem s)\<lparr>rw_readers := rw_readers (rw_sem s) - 1\<rparr>\<rparr>"

definition down_write :: "system \<Rightarrow> system option" where
  "down_write s =
     (if rw_writer (rw_sem s) \<or> rw_readers (rw_sem s) \<noteq> 0 then None
      else Some (s\<lparr>rw_sem := (rw_sem s)\<lparr>rw_writer := True\<rparr>\<rparr>))"

definition up_write :: "system \<Rightarrow> system" where
  "up_write s = s\<lparr>rw_sem := (rw_sem s)\<lparr>rw_writer := False\<rparr>\<rparr>"

definition go_to_sleep :: "tid \<Rightarrow> system \<Rightarrow> system" where
  "go_to_sleep t s =
     s\<lparr>write_waitq := (write_waitq s)\<lparr>sleepers := insert t (sleepers (write_waitq s))\<rparr>\<rparr>"

section \<open>The four operations, statement by statement\<close>

text \<open>
  \<^verbatim>\<open>update_fast_ctr(brw, val)\<close>, one statement; the result is the next program counter
  inside the function, or the value the function returns.
\<close>

fun update_fast_ctr_step ::
  "32 word \<Rightarrow> tid \<Rightarrow> cpu \<Rightarrow> ufc_pc \<Rightarrow> system \<Rightarrow> ((ufc_pc + bool) \<times> system) option" where
  "update_fast_ctr_step val t c U_disable s =
     (if c < nr_cpus s then Some (Inl (U_check c), s) else None)"
| "update_fast_ctr_step val t c (U_check c') s =
     (if \<not> mutex_is_locked (writer_mutex s) then Some (Inl (U_add c'), s)
      else Some (Inl (U_enable c' False), s))"
| "update_fast_ctr_step val t c (U_add c') s =
     (case this_cpu_add c' val s of
        None \<Rightarrow> None
      | Some s' \<Rightarrow> Some (Inl (U_enable c' True), s'))"
| "update_fast_ctr_step val t c (U_enable c' success) s =
     Some (Inr success, preempt_enable t s)"

text \<open>\<^verbatim>\<open>percpu_down_read\<close>.\<close>

fun percpu_down_read_step :: "tid \<Rightarrow> cpu \<Rightarrow> down_read_pc \<Rightarrow> system \<Rightarrow> system option" where
  "percpu_down_read_step t c (DR_ufc u) s =
     (case update_fast_ctr_step 1 t c u s of
        None \<Rightarrow> None
      | Some (Inl u', s') \<Rightarrow> Some (set_pc t (DownRead (DR_ufc u')) s')
      | Some (Inr success, s') \<Rightarrow>
          if success then Some (set_pc t InRead s')
          else Some (set_pc t (DownRead DR_down_read) s'))"
| "percpu_down_read_step t c DR_down_read s =
     (case down_read s of
        None \<Rightarrow> None
      | Some s' \<Rightarrow> Some (set_pc t (DownRead DR_inc) s'))"
| "percpu_down_read_step t c DR_inc s =
     Some (set_pc t (DownRead DR_up_read) (atomic_inc s))"
| "percpu_down_read_step t c DR_up_read s =
     Some (set_pc t InRead (up_read s))"

text \<open>\<^verbatim>\<open>percpu_up_read\<close>; the \<^verbatim>\<open>-1\<close> it passes is the \<^verbatim>\<open>unsigned int\<close> \<open>- 1\<close>.\<close>

fun percpu_up_read_step :: "tid \<Rightarrow> cpu \<Rightarrow> up_read_pc \<Rightarrow> system \<Rightarrow> system option" where
  "percpu_up_read_step t c (UR_ufc u) s =
     (case update_fast_ctr_step (- 1) t c u s of
        None \<Rightarrow> None
      | Some (Inl u', s') \<Rightarrow> Some (set_pc t (UpRead (UR_ufc u')) s')
      | Some (Inr success, s') \<Rightarrow>
          if success then Some (set_pc t Idle s')
          else Some (set_pc t (UpRead UR_dec) s'))"
| "percpu_up_read_step t c UR_dec s =
     (case atomic_dec_and_test s of
        (zero, s') \<Rightarrow> Some (set_pc t Idle (if zero then wake_up_all s' else s')))"

text \<open>\<^verbatim>\<open>percpu_down_write\<close>, with the loop of \<^verbatim>\<open>clear_fast_ctr\<close> one round a step.\<close>

fun percpu_down_write_step :: "nat \<Rightarrow> tid \<Rightarrow> down_write_pc \<Rightarrow> system \<Rightarrow> system option" where
  "percpu_down_write_step n t DW_lock s =
     (case mutex_lock t s of
        None \<Rightarrow> None
      | Some s' \<Rightarrow> Some (set_pc t (DownWrite (DW_sync S_call)) s'))"
| "percpu_down_write_step n t (DW_sync sp) s =
     (case synchronize_sched_expedited_step n t sp s of
        None \<Rightarrow> None
      | Some (Inl sp', s') \<Rightarrow> Some (set_pc t (DownWrite (DW_sync sp')) s')
      | Some (Inr u, s') \<Rightarrow> Some (set_pc t (DownWrite (DW_clear 0 0)) s'))"
| "percpu_down_write_step n t (DW_clear c sm) s =
     (case fast_read_ctr s of
        None \<Rightarrow> None
      | Some ctrs \<Rightarrow>
          if c < length ctrs then
            (case clear_iter c (sm, ctrs) of
               (sm', ctrs') \<Rightarrow>
                 Some (set_pc t (DownWrite (DW_clear (Suc c) sm'))
                        (s\<lparr>fast_read_ctr := Some ctrs'\<rparr>)))
          else Some (set_pc t (DownWrite (DW_add sm)) s))"
| "percpu_down_write_step n t (DW_add v) s =
     Some (set_pc t (DownWrite DW_down_write) (atomic_add v s))"
| "percpu_down_write_step n t DW_down_write s =
     (case down_write s of
        None \<Rightarrow> None
      | Some s' \<Rightarrow> Some (set_pc t (DownWrite DW_wait) s'))"
| "percpu_down_write_step n t DW_wait s =
     (if slow_read_ctr s = 0 then Some (set_pc t InWrite s)
      else Some (set_pc t (DownWrite DW_sleep) (go_to_sleep t s)))"
| "percpu_down_write_step n t DW_sleep s =
     (if t \<in> sleepers (write_waitq s) then None
      else Some (set_pc t (DownWrite DW_wait) s))"

text \<open>\<^verbatim>\<open>percpu_up_write\<close>.\<close>

fun percpu_up_write_step :: "nat \<Rightarrow> tid \<Rightarrow> up_write_pc \<Rightarrow> system \<Rightarrow> system option" where
  "percpu_up_write_step n t UW_up_write s =
     Some (set_pc t (UpWrite (UW_sync S_call)) (up_write s))"
| "percpu_up_write_step n t (UW_sync sp) s =
     (case synchronize_sched_expedited_step n t sp s of
        None \<Rightarrow> None
      | Some (Inl sp', s') \<Rightarrow> Some (set_pc t (UpWrite (UW_sync sp')) s')
      | Some (Inr u, s') \<Rightarrow> Some (set_pc t (UpWrite UW_unlock) s'))"
| "percpu_up_write_step n t UW_unlock s =
     Some (set_pc t Idle (mutex_unlock s))"

section \<open>Interleavings\<close>

text \<open>
  One step of the system with \<open>n\<close> tasks: the scheduled task executes its next statement.
  An idle task calls \<^verbatim>\<open>percpu_down_read\<close> or \<^verbatim>\<open>percpu_down_write\<close>; a task in a read
  critical section calls \<^verbatim>\<open>percpu_up_read\<close>, one in a write critical section
  \<^verbatim>\<open>percpu_up_write\<close>. \<open>None\<close>: the task is blocked, or faults.
\<close>

definition step :: "nat \<Rightarrow> event \<Rightarrow> system \<Rightarrow> system option" where
  "step n e s =
     (case e of (t, c, cl) \<Rightarrow>
        if \<not> t < n then None
        else
          (case pcs s t of
             Idle \<Rightarrow>
               (case cl of
                  CallRead \<Rightarrow> Some (set_pc t (DownRead (DR_ufc U_disable)) s)
                | CallWrite \<Rightarrow> Some (set_pc t (DownWrite DW_lock) s))
           | DownRead p \<Rightarrow> percpu_down_read_step t c p s
           | InRead \<Rightarrow> Some (set_pc t (UpRead (UR_ufc U_disable)) s)
           | UpRead p \<Rightarrow> percpu_up_read_step t c p s
           | DownWrite p \<Rightarrow> percpu_down_write_step n t p s
           | InWrite \<Rightarrow> Some (set_pc t (UpWrite UW_up_write) s)
           | UpWrite p \<Rightarrow> percpu_up_write_step n t p s))"

fun run :: "nat \<Rightarrow> event list \<Rightarrow> system \<Rightarrow> system option" where
  "run n [] s = Some s"
| "run n (e # es) s = (case step n e s of None \<Rightarrow> None | Some s' \<Rightarrow> run n es s')"

text \<open>
  The system starts with the semaphore as a successful \<^verbatim>\<open>percpu_init_rwsem\<close> leaves it
  and every task idle.
\<close>

definition blank :: system where
  "blank =
     \<lparr>fast_read_ctr = None, writer_mutex = None,
      rw_sem = \<lparr>rw_writer = False, rw_readers = 0\<rparr>, slow_read_ctr = 0,
      write_waitq = \<lparr>sleepers = {}, wakeups = 0\<rparr>,
      pcs = (\<lambda>t. Idle), gp_pending = (\<lambda>t. {})\<rparr>"

definition boot :: "nat \<Rightarrow> system" where
  "boot ncpus = snd (percpu_init_rwsem ncpus True blank)"

inductive reachable :: "nat \<Rightarrow> nat \<Rightarrow> system \<Rightarrow> bool" for n :: nat and ncpus :: nat where
  reachable_boot: "reachable n ncpus (boot ncpus)"
| reachable_step: "reachable n ncpus s \<Longrightarrow> step n e s = Some s' \<Longrightarrow> reachable n ncpus s'"

section \<open>What the program counters say\<close>

text \<open>The task holds \<^verbatim>\<open>writer_mutex\<close>: from after \<^verbatim>\<open>mutex_lock\<close> to \<^verbatim>\<open>mutex_unlock\<close>.\<close>

fun holds_mutex :: "pc \<Rightarrow> bool" where
  "holds_mutex (DownWrite DW_lock) = False"
| "holds_mutex (DownWrite p) = True"
| "holds_mutex InWrite = True"
| "holds_mutex (UpWrite p) = True"
| "holds_mutex p = False"

text \<open>The writer's first \<^verbatim>\<open>synchronize_sched_expedited\<close> has returned.\<close>

fun past_sync :: "pc \<Rightarrow> bool" where
  "past_sync (DownWrite DW_lock) = False"
| "past_sync (DownWrite (DW_sync sp)) = False"
| "past_sync (DownWrite p) = True"
| "past_sync InWrite = True"
| "past_sync (UpWrite p) = True"
| "past_sync p = False"

text \<open>The task holds \<^verbatim>\<open>rw_sem\<close> for writing, and for reading (as a number).\<close>

fun holds_rw_write :: "pc \<Rightarrow> bool" where
  "holds_rw_write (DownWrite DW_wait) = True"
| "holds_rw_write (DownWrite DW_sleep) = True"
| "holds_rw_write InWrite = True"
| "holds_rw_write (UpWrite UW_up_write) = True"
| "holds_rw_write p = False"

fun holds_rw_read :: "pc \<Rightarrow> nat" where
  "holds_rw_read (DownRead DR_inc) = 1"
| "holds_rw_read (DownRead DR_up_read) = 1"
| "holds_rw_read p = 0"

text \<open>The task has seen the mutex free and is about to add to its cpu's counter.\<close>

fun at_add :: "pc \<Rightarrow> bool" where
  "at_add (DownRead (DR_ufc (U_add c))) = True"
| "at_add (UpRead (UR_ufc (U_add c))) = True"
| "at_add p = False"

text \<open>
  The reader is counted: it has added 1 to a fast counter or to the slow counter, and
  has not yet subtracted it.
\<close>

fun counted :: "pc \<Rightarrow> 32 word" where
  "counted (DownRead (DR_ufc (U_enable c True))) = 1"
| "counted (DownRead DR_up_read) = 1"
| "counted InRead = 1"
| "counted (UpRead (UR_ufc (U_enable c True))) = 0"
| "counted (UpRead p) = 1"
| "counted p = 0"

text \<open>The sum a writer has taken out of the fast counters and not yet added to the slow one.\<close>

fun in_flight :: "pc \<Rightarrow> 32 word" where
  "in_flight (DownWrite (DW_clear c sm)) = sm"
| "in_flight (DownWrite (DW_add v)) = v"
| "in_flight p = 0"

text \<open>The writer has set the counter of cpu \<open>i\<close> to zero.\<close>

fun cleared :: "pc \<Rightarrow> cpu \<Rightarrow> bool" where
  "cleared (DownWrite (DW_clear c sm)) i = (i < c)"
| "cleared p i = past_sync p"

text \<open>The cpu a task inside a preemption-disabled section runs on.\<close>

fun ufc_cpu :: "ufc_pc \<Rightarrow> cpu option" where
  "ufc_cpu U_disable = None"
| "ufc_cpu (U_check c) = Some c"
| "ufc_cpu (U_add c) = Some c"
| "ufc_cpu (U_enable c r) = Some c"

fun pc_cpu :: "pc \<Rightarrow> cpu option" where
  "pc_cpu (DownRead (DR_ufc u)) = ufc_cpu u"
| "pc_cpu (UpRead (UR_ufc u)) = ufc_cpu u"
| "pc_cpu p = None"

section \<open>Invariants of the reachable states\<close>

text \<open>The program counter of the task that holds \<^verbatim>\<open>writer_mutex\<close> (\<open>Idle\<close> if none does).\<close>

definition writer_pc :: "system \<Rightarrow> pc" where
  "writer_pc s = (case writer_mutex s of None \<Rightarrow> Idle | Some w \<Rightarrow> pcs s w)"

definition inv_idle :: "nat \<Rightarrow> system \<Rightarrow> bool" where
  "inv_idle n s = (\<forall>t. n \<le> t \<longrightarrow> pcs s t = Idle)"

definition inv_ctrs :: "nat \<Rightarrow> system \<Rightarrow> bool" where
  "inv_ctrs ncpus s =
     ((\<exists>ctrs. fast_read_ctr s = Some ctrs \<and> length ctrs = ncpus)
      \<and> (\<forall>t c. pc_cpu (pcs s t) = Some c \<longrightarrow> c < ncpus))"

definition inv_mutex :: "system \<Rightarrow> bool" where
  "inv_mutex s = (\<forall>t. (writer_mutex s = Some t) = holds_mutex (pcs s t))"

definition inv_rw :: "nat \<Rightarrow> system \<Rightarrow> bool" where
  "inv_rw n s =
     (rw_writer (rw_sem s) = holds_rw_write (writer_pc s)
      \<and> rw_readers (rw_sem s) = (\<Sum>u<n. holds_rw_read (pcs s u))
      \<and> (rw_writer (rw_sem s) \<longrightarrow> rw_readers (rw_sem s) = 0))"

definition inv_frozen :: "system \<Rightarrow> bool" where
  "inv_frozen s =
     (\<forall>t. at_add (pcs s t) \<longrightarrow>
        (case writer_mutex s of
           None \<Rightarrow> True
         | Some w \<Rightarrow>
             \<not> past_sync (pcs s w)
             \<and> (pcs s w = DownWrite (DW_sync S_wait) \<longrightarrow> t \<in> gp_pending s w)))"

definition inv_count :: "nat \<Rightarrow> system \<Rightarrow> bool" where
  "inv_count n s =
     (\<exists>ctrs. fast_read_ctr s = Some ctrs
        \<and> (\<Sum>u<n. counted (pcs s u))
            = sum_list ctrs + slow_read_ctr s + in_flight (writer_pc s))"

definition inv_cleared :: "system \<Rightarrow> bool" where
  "inv_cleared s =
     (\<forall>ctrs i. fast_read_ctr s = Some ctrs \<longrightarrow> i < length ctrs \<longrightarrow>
        cleared (writer_pc s) i \<longrightarrow> ctrs ! i = 0)"

definition inv_excl :: "system \<Rightarrow> bool" where
  "inv_excl s = (writer_pc s = InWrite \<longrightarrow> slow_read_ctr s = 0)"

definition invariant :: "nat \<Rightarrow> nat \<Rightarrow> system \<Rightarrow> bool" where
  "invariant n ncpus s =
     (inv_idle n s \<and> inv_ctrs ncpus s \<and> inv_mutex s \<and> inv_rw n s \<and> inv_frozen s
      \<and> inv_count n s \<and> inv_cleared s)"

section \<open>Histories\<close>

text \<open>
  The exact signed-integer arithmetic the counters are compared with. What the statement a
  task is about to execute adds to the number of readers counted, as an integer: \<open>+1\<close> for
  the \<^verbatim>\<open>__this_cpu_add\<close> of \<^verbatim>\<open>percpu_down_read\<close> and for \<^verbatim>\<open>atomic_inc\<close>, \<open>-1\<close> for the
  \<^verbatim>\<open>__this_cpu_add\<close> of \<^verbatim>\<open>percpu_up_read\<close> and for \<^verbatim>\<open>atomic_dec_and_test\<close>, nothing for any
  other statement.
\<close>

fun exact_delta :: "pc \<Rightarrow> int" where
  "exact_delta (DownRead (DR_ufc (U_add c))) = 1"
| "exact_delta (DownRead DR_inc) = 1"
| "exact_delta (UpRead (UR_ufc (U_add c))) = - 1"
| "exact_delta (UpRead UR_dec) = - 1"
| "exact_delta p = 0"

text \<open>
  The increments minus the decrements of the statements a run executes, as an exact
  integer; the run is that of \<open>step\<close>, the integer is kept beside it.
\<close>

fun exact_balance :: "nat \<Rightarrow> event list \<Rightarrow> system \<Rightarrow> int" where
  "exact_balance n [] s = 0"
| "exact_balance n (e # es) s =
     (case step n e s of
        None \<Rightarrow> 0
      | Some s' \<Rightarrow> exact_delta (pcs s (fst e)) + exact_balance n es s')"

text \<open>The program counters of task \<open>t\<close> along a run, one for each state.\<close>

fun pc_trace :: "nat \<Rightarrow> tid \<Rightarrow> event list \<Rightarrow> system \<Rightarrow> pc list" where
  "pc_trace n t [] s = [pcs s t]"
| "pc_trace n t (e # es) s =
     pcs s t # (case step n e s of None \<Rightarrow> [] | Some s' \<Rightarrow> pc_trace n t es s')"

text \<open>
  The path a reader takes: in \<^verbatim>\<open>percpu_down_read\<close> the fast path once its test has found
  the mutex free, the slow path once it is at \<^verbatim>\<open>down_read\<close>. A trace of program counters
  has matching paths when, wherever the reader is at the \<^verbatim>\<open>atomic_dec_and_test\<close> of
  \<^verbatim>\<open>percpu_up_read\<close>, the last path it took in \<^verbatim>\<open>percpu_down_read\<close> was the slow one.
\<close>

datatype path = Fast | Slow

fun release_matches_acquire :: "path option \<Rightarrow> pc list \<Rightarrow> bool" where
  "release_matches_acquire a [] = True"
| "release_matches_acquire a (DownRead (DR_ufc (U_add c)) # ps) =
     release_matches_acquire (Some Fast) ps"
| "release_matches_acquire a (DownRead DR_down_read # ps) =
     release_matches_acquire (Some Slow) ps"
| "release_matches_acquire a (UpRead UR_dec # ps) =
     (a = Some Slow \<and> release_matches_acquire a ps)"
| "release_matches_acquire a (p # ps) = release_matches_acquire a ps"





section \<open>Example runs\<close>

text \<open>
  The state of a system of two tasks and one cpu after a schedule, from the start.
\<close>

definition after :: "event list \<Rightarrow> system" where
  "after es = the (run 2 es (boot 1))"

text \<open>
  Task 1 enters a read section by the fast path; task 0 calls \<^verbatim>\<open>percpu_down_write\<close> and
  goes to sleep on the wait queue; task 1 leaves by the slow path and wakes task 0, which
  completes; task 1 calls \<^verbatim>\<open>percpu_down_read\<close> again and is at its test of the mutex.
\<close>

definition sched_excl :: "event list" where
  "sched_excl =
     replicate 5 (1, 0, CallRead) @ replicate 9 (0, 0, CallWrite)
     @ replicate 5 (1, 0, CallRead) @ replicate 2 (0, 0, CallWrite)
     @ replicate 2 (1, 0, CallRead)"

text \<open>
  Task 1 enters a read section by the fast path; task 0 calls \<^verbatim>\<open>percpu_down_write\<close> and
  takes the mutex; task 1 calls \<^verbatim>\<open>percpu_up_read\<close>, finds the mutex locked and is at
  \<^verbatim>\<open>atomic_dec_and_test\<close>.
\<close>

definition sched_mismatch :: "event list" where
  "sched_mismatch =
     replicate 5 (1, 0, CallRead) @ replicate 2 (0, 0, CallWrite)
     @ replicate 4 (1, 0, CallRead)"

text \<open>
  Task 1 calls \<^verbatim>\<open>percpu_down_read\<close> with no writer about; and after task 0 has called
  \<^verbatim>\<open>percpu_down_write\<close> and taken the mutex.
\<close>

definition sched_read_fast :: "event list" where
  "sched_read_fast = replicate 5 (1, 0, CallRead)"

definition sched_read_slow :: "event list" where
  "sched_read_slow = replicate 2 (0, 0, CallWrite) @ replicate 7 (1, 0, CallRead)"


text \<open>The state of a system of two tasks and two cpus after a schedule, from the start.\<close>

definition after_smp :: "event list \<Rightarrow> system" where
  "after_smp es = the (run 2 es (boot 2))"

text \<open>
  With two cpus and no writer: task 1 calls \<^verbatim>\<open>percpu_down_read\<close> and disables preemption
  on cpu 1; the scheduler then names cpu 0 for it, and the task stays on cpu 1 until it has
  enabled preemption again.
\<close>

definition sched_read_cpu1 :: "event list" where
  "sched_read_cpu1 = replicate 2 (1, 1, CallRead) @ replicate 3 (1, 0, CallRead)"

text \<open>
  With two cpus and no writer: task 0 enters a read section on cpu 0 and leaves it on
  cpu 1; task 1 then enters a read section on cpu 0.
\<close>

definition sched_recount :: "event list" where
  "sched_recount =
     replicate 5 (0, 0, CallRead) @ replicate 5 (0, 1, CallRead) @ replicate 5 (1, 0, CallRead)"

section \<open>The drain, run without interruption\<close>

lemma fold_clear_iter_take:
  "k \<le> length ctrs \<Longrightarrow>
   fold clear_iter [0..<k] (a, ctrs) = (a + sum_list (take k ctrs), replicate k 0 @ drop k ctrs)"
proof (induction k)
  case 0
  then show ?case by simp
next
  case (Suc k)
  then have k: "k < length ctrs" by simp
  have nth: "(replicate k (0::32 word) @ drop k ctrs) ! k = ctrs ! k"
    using k by (simp add: nth_append)
  have upd: "(replicate k (0::32 word) @ drop k ctrs)[k := 0] = replicate (Suc k) 0 @ drop (Suc k) ctrs"
    using k by (simp add: list_update_append Cons_nth_drop_Suc [symmetric] replicate_append_same)
  show ?case
    using Suc.IH k nth upd
    by (simp add: clear_iter_def take_Suc_conv_app_nth add.assoc del: replicate_Suc)
qed

lemma fold_clear_iter_all:
  "fold clear_iter [0..<length ctrs] (a, ctrs) = (a + sum_list ctrs, replicate (length ctrs) 0)"
  using fold_clear_iter_take [of "length ctrs" ctrs a] by simp

lemma clear_fast_ctr_Some:
  "fast_read_ctr brw = Some ctrs \<Longrightarrow>
   clear_fast_ctr brw = Some (sum_list ctrs, brw\<lparr>fast_read_ctr := Some (replicate (length ctrs) 0)\<rparr>)"
  by (simp add: clear_fast_ctr_def fold_clear_iter_all)

lemma sum_list_sint: "(sum_list ctrs :: 32 word) = of_int (\<Sum>x\<leftarrow>ctrs. sint x)"
  by (induction ctrs) simp_all

section \<open>The steps of the system, case by case\<close>

lemma step_disj:
  assumes "step n (t, c, cl) s = Some s'"
  shows "t < n \<and>
   ((pcs s t = Idle \<and> cl = CallRead \<and> s' = s\<lparr>pcs := (pcs s)(t := DownRead (DR_ufc U_disable))\<rparr>)
  \<or> (pcs s t = Idle \<and> cl = CallWrite \<and> s' = s\<lparr>pcs := (pcs s)(t := DownWrite DW_lock)\<rparr>)
  \<or> (pcs s t = DownRead (DR_ufc U_disable) \<and> c < nr_cpus s
       \<and> s' = s\<lparr>pcs := (pcs s)(t := DownRead (DR_ufc (U_check c)))\<rparr>)
  \<or> (\<exists>c'. pcs s t = DownRead (DR_ufc (U_check c')) \<and> writer_mutex s = None
       \<and> s' = s\<lparr>pcs := (pcs s)(t := DownRead (DR_ufc (U_add c')))\<rparr>)
  \<or> (\<exists>c'. pcs s t = DownRead (DR_ufc (U_check c')) \<and> writer_mutex s \<noteq> None
       \<and> s' = s\<lparr>pcs := (pcs s)(t := DownRead (DR_ufc (U_enable c' False)))\<rparr>)
  \<or> (\<exists>c' ctrs. pcs s t = DownRead (DR_ufc (U_add c')) \<and> fast_read_ctr s = Some ctrs
       \<and> c' < length ctrs
       \<and> s' = s\<lparr>fast_read_ctr := Some (ctrs[c' := ctrs ! c' + 1]),
                 pcs := (pcs s)(t := DownRead (DR_ufc (U_enable c' True)))\<rparr>)
  \<or> (\<exists>c'. pcs s t = DownRead (DR_ufc (U_enable c' True))
       \<and> s' = s\<lparr>pcs := (pcs s)(t := InRead), gp_pending := (\<lambda>w. gp_pending s w - {t})\<rparr>)
  \<or> (\<exists>c'. pcs s t = DownRead (DR_ufc (U_enable c' False))
       \<and> s' = s\<lparr>pcs := (pcs s)(t := DownRead DR_down_read),
                 gp_pending := (\<lambda>w. gp_pending s w - {t})\<rparr>)
  \<or> (pcs s t = DownRead DR_down_read \<and> \<not> rw_writer (rw_sem s)
       \<and> s' = s\<lparr>rw_sem := (rw_sem s)\<lparr>rw_readers := Suc (rw_readers (rw_sem s))\<rparr>,
                 pcs := (pcs s)(t := DownRead DR_inc)\<rparr>)
  \<or> (pcs s t = DownRead DR_inc
       \<and> s' = s\<lparr>slow_read_ctr := slow_read_ctr s + 1,
                 pcs := (pcs s)(t := DownRead DR_up_read)\<rparr>)
  \<or> (pcs s t = DownRead DR_up_read
       \<and> s' = s\<lparr>rw_sem := (rw_sem s)\<lparr>rw_readers := rw_readers (rw_sem s) - 1\<rparr>,
                 pcs := (pcs s)(t := InRead)\<rparr>)
  \<or> (pcs s t = InRead \<and> s' = s\<lparr>pcs := (pcs s)(t := UpRead (UR_ufc U_disable))\<rparr>)
  \<or> (pcs s t = UpRead (UR_ufc U_disable) \<and> c < nr_cpus s
       \<and> s' = s\<lparr>pcs := (pcs s)(t := UpRead (UR_ufc (U_check c)))\<rparr>)
  \<or> (\<exists>c'. pcs s t = UpRead (UR_ufc (U_check c')) \<and> writer_mutex s = None
       \<and> s' = s\<lparr>pcs := (pcs s)(t := UpRead (UR_ufc (U_add c')))\<rparr>)
  \<or> (\<exists>c'. pcs s t = UpRead (UR_ufc (U_check c')) \<and> writer_mutex s \<noteq> None
       \<and> s' = s\<lparr>pcs := (pcs s)(t := UpRead (UR_ufc (U_enable c' False)))\<rparr>)
  \<or> (\<exists>c' ctrs. pcs s t = UpRead (UR_ufc (U_add c')) \<and> fast_read_ctr s = Some ctrs
       \<and> c' < length ctrs
       \<and> s' = s\<lparr>fast_read_ctr := Some (ctrs[c' := ctrs ! c' + (- 1)]),
                 pcs := (pcs s)(t := UpRead (UR_ufc (U_enable c' True)))\<rparr>)
  \<or> (\<exists>c'. pcs s t = UpRead (UR_ufc (U_enable c' True))
       \<and> s' = s\<lparr>pcs := (pcs s)(t := Idle), gp_pending := (\<lambda>w. gp_pending s w - {t})\<rparr>)
  \<or> (\<exists>c'. pcs s t = UpRead (UR_ufc (U_enable c' False))
       \<and> s' = s\<lparr>pcs := (pcs s)(t := UpRead UR_dec),
                 gp_pending := (\<lambda>w. gp_pending s w - {t})\<rparr>)
  \<or> (pcs s t = UpRead UR_dec
       \<and> s' = s\<lparr>slow_read_ctr := slow_read_ctr s - 1,
                 write_waitq :=
                   (if slow_read_ctr s - 1 = 0
                    then \<lparr>sleepers = {}, wakeups = Suc (wakeups (write_waitq s))\<rparr>
                    else write_waitq s),
                 pcs := (pcs s)(t := Idle)\<rparr>)
  \<or> (pcs s t = DownWrite DW_lock \<and> writer_mutex s = None
       \<and> s' = s\<lparr>writer_mutex := Some t, pcs := (pcs s)(t := DownWrite (DW_sync S_call))\<rparr>)
  \<or> (pcs s t = DownWrite (DW_sync S_call)
       \<and> s' = s\<lparr>pcs := (pcs s)(t := DownWrite (DW_sync S_wait)),
                 gp_pending := (gp_pending s)(t := {u. u < n \<and> in_region (pcs s u)})\<rparr>)
  \<or> (pcs s t = DownWrite (DW_sync S_wait) \<and> gp_pending s t = {}
       \<and> s' = s\<lparr>pcs := (pcs s)(t := DownWrite (DW_clear 0 0))\<rparr>)
  \<or> (\<exists>c' sm ctrs. pcs s t = DownWrite (DW_clear c' sm) \<and> fast_read_ctr s = Some ctrs
       \<and> c' < length ctrs
       \<and> s' = s\<lparr>fast_read_ctr := Some (ctrs[c' := 0]),
                 pcs := (pcs s)(t := DownWrite (DW_clear (Suc c') (sm + ctrs ! c')))\<rparr>)
  \<or> (\<exists>c' sm ctrs. pcs s t = DownWrite (DW_clear c' sm) \<and> fast_read_ctr s = Some ctrs
       \<and> \<not> c' < length ctrs
       \<and> s' = s\<lparr>pcs := (pcs s)(t := DownWrite (DW_add sm))\<rparr>)
  \<or> (\<exists>v. pcs s t = DownWrite (DW_add v)
       \<and> s' = s\<lparr>slow_read_ctr := slow_read_ctr s + v,
                 pcs := (pcs s)(t := DownWrite DW_down_write)\<rparr>)
  \<or> (pcs s t = DownWrite DW_down_write \<and> \<not> rw_writer (rw_sem s)
       \<and> rw_readers (rw_sem s) = 0
       \<and> s' = s\<lparr>rw_sem := (rw_sem s)\<lparr>rw_writer := True\<rparr>,
                 pcs := (pcs s)(t := DownWrite DW_wait)\<rparr>)
  \<or> (pcs s t = DownWrite DW_wait \<and> slow_read_ctr s = 0
       \<and> s' = s\<lparr>pcs := (pcs s)(t := InWrite)\<rparr>)
  \<or> (pcs s t = DownWrite DW_wait \<and> slow_read_ctr s \<noteq> 0
       \<and> s' = s\<lparr>write_waitq := (write_waitq s)\<lparr>sleepers := insert t (sleepers (write_waitq s))\<rparr>,
                 pcs := (pcs s)(t := DownWrite DW_sleep)\<rparr>)
  \<or> (pcs s t = DownWrite DW_sleep \<and> t \<notin> sleepers (write_waitq s)
       \<and> s' = s\<lparr>pcs := (pcs s)(t := DownWrite DW_wait)\<rparr>)
  \<or> (pcs s t = InWrite \<and> s' = s\<lparr>pcs := (pcs s)(t := UpWrite UW_up_write)\<rparr>)
  \<or> (pcs s t = UpWrite UW_up_write
       \<and> s' = s\<lparr>rw_sem := (rw_sem s)\<lparr>rw_writer := False\<rparr>,
                 pcs := (pcs s)(t := UpWrite (UW_sync S_call))\<rparr>)
  \<or> (pcs s t = UpWrite (UW_sync S_call)
       \<and> s' = s\<lparr>pcs := (pcs s)(t := UpWrite (UW_sync S_wait)),
                 gp_pending := (gp_pending s)(t := {u. u < n \<and> in_region (pcs s u)})\<rparr>)
  \<or> (pcs s t = UpWrite (UW_sync S_wait) \<and> gp_pending s t = {}
       \<and> s' = s\<lparr>pcs := (pcs s)(t := UpWrite UW_unlock)\<rparr>)
  \<or> (pcs s t = UpWrite UW_unlock
       \<and> s' = s\<lparr>writer_mutex := None, pcs := (pcs s)(t := Idle)\<rparr>))"
proof (cases "t < n")
  case False
  with assms show ?thesis by (simp add: step_def)
next
  case True
  show ?thesis
  proof (cases "pcs s t")
    case Idle
    with assms True show ?thesis
      by (cases cl) (auto simp: step_def set_pc_def)
  next
    case (DownRead p)
    show ?thesis
    proof (cases p)
      case (DR_ufc u)
      with assms True DownRead show ?thesis
        by (cases u)
          (auto simp: step_def set_pc_def mutex_is_locked_def this_cpu_add_def preempt_enable_def
            split: if_splits option.splits)
    next
      case DR_down_read
      with assms True DownRead show ?thesis
        by (auto simp: step_def set_pc_def down_read_def split: if_splits)
    next
      case DR_inc
      with assms True DownRead show ?thesis
        by (auto simp: step_def set_pc_def atomic_inc_def)
    next
      case DR_up_read
      with assms True DownRead show ?thesis
        by (auto simp: step_def set_pc_def up_read_def)
    qed
  next
    case InRead
    with assms True show ?thesis
      by (auto simp: step_def set_pc_def)
  next
    case (UpRead p)
    show ?thesis
    proof (cases p)
      case (UR_ufc u)
      with assms True UpRead show ?thesis
        by (cases u)
          (auto simp: step_def set_pc_def mutex_is_locked_def this_cpu_add_def preempt_enable_def
            split: if_splits option.splits)
    next
      case UR_dec
      with assms True UpRead show ?thesis
        by (auto simp: step_def set_pc_def atomic_dec_and_test_def wake_up_all_def)
    qed
  next
    case (DownWrite p)
    show ?thesis
    proof (cases p)
      case DW_lock
      with assms True DownWrite show ?thesis
        by (auto simp: step_def set_pc_def mutex_lock_def mutex_is_locked_def split: if_splits)
    next
      case (DW_sync sp)
      with assms True DownWrite show ?thesis
        by (cases sp) (auto simp: step_def set_pc_def split: if_splits)
    next
      case (DW_clear c' sm)
      with assms True DownWrite show ?thesis
        by (auto simp: step_def set_pc_def clear_iter_def split: if_splits option.splits)
    next
      case (DW_add v)
      with assms True DownWrite show ?thesis
        by (auto simp: step_def set_pc_def atomic_add_def)
    next
      case DW_down_write
      with assms True DownWrite show ?thesis
        by (auto simp: step_def set_pc_def down_write_def split: if_splits)
    next
      case DW_wait
      with assms True DownWrite show ?thesis
        by (auto simp: step_def set_pc_def go_to_sleep_def split: if_splits)
    next
      case DW_sleep
      with assms True DownWrite show ?thesis
        by (auto simp: step_def set_pc_def split: if_splits)
    qed
  next
    case InWrite
    with assms True show ?thesis
      by (auto simp: step_def set_pc_def)
  next
    case (UpWrite p)
    show ?thesis
    proof (cases p)
      case UW_up_write
      with assms True UpWrite show ?thesis
        by (auto simp: step_def set_pc_def up_write_def)
    next
      case (UW_sync sp)
      with assms True UpWrite show ?thesis
        by (cases sp) (auto simp: step_def set_pc_def split: if_splits)
    next
      case UW_unlock
      with assms True UpWrite show ?thesis
        by (auto simp: step_def set_pc_def mutex_unlock_def)
    qed
  qed
qed

section \<open>Sums over the tasks\<close>

lemma sum_fun_upd:
  fixes f :: "'b \<Rightarrow> 'a::comm_monoid_add" and t n :: nat
  assumes "t < n"
  shows "(\<Sum>u<n. f ((g(t := p)) u)) + f (g t) = (\<Sum>u<n. f (g u)) + f p"
proof -
  have t: "t \<in> {..<n}" using assms by simp
  have "(\<Sum>u<n. f ((g(t := p)) u)) = f p + (\<Sum>u\<in>{..<n} - {t}. f ((g(t := p)) u))"
    using sum.remove [OF finite_lessThan t, of "\<lambda>u. f ((g(t := p)) u)"] by simp
  also have "(\<Sum>u\<in>{..<n} - {t}. f ((g(t := p)) u)) = (\<Sum>u\<in>{..<n} - {t}. f (g u))"
    by (rule sum.cong) auto
  finally have a: "(\<Sum>u<n. f ((g(t := p)) u)) = f p + (\<Sum>u\<in>{..<n} - {t}. f (g u))" .
  have b: "(\<Sum>u<n. f (g u)) = f (g t) + (\<Sum>u\<in>{..<n} - {t}. f (g u))"
    using sum.remove [OF finite_lessThan t, of "\<lambda>u. f (g u)"] by simp
  show ?thesis unfolding a b by (simp add: ac_simps)
qed

lemma sum_fun_upd_word:
  fixes f :: "'b \<Rightarrow> 32 word" and t n :: nat
  assumes "t < n"
  shows "(\<Sum>u<n. f ((g(t := p)) u)) = (\<Sum>u<n. f (g u)) - f (g t) + f p"
  using sum_fun_upd [OF assms, of f g p] by (simp add: algebra_simps)

lemma sum_list_update_word:
  fixes xs :: "32 word list"
  shows "c < length xs \<Longrightarrow> sum_list (xs[c := x]) = sum_list xs - xs ! c + x"
proof (induction xs arbitrary: c)
  case Nil
  then show ?case by simp
next
  case (Cons a xs)
  then show ?case by (cases c) (simp_all add: algebra_simps)
qed

lemma inv_idle_step:
  assumes "inv_idle n s" and "step n (t, c, cl) s = Some s'"
  shows "inv_idle n s'"
  using step_disj [OF assms(2)] assms(1)
  by (elim disjE exE conjE) (auto simp: inv_idle_def)

lemma inv_mutex_holder: "inv_mutex s \<Longrightarrow> holds_mutex (pcs s a) \<Longrightarrow> writer_mutex s = Some a"
  by (simp add: inv_mutex_def)

lemma inv_mutex_unique:
  "inv_mutex s \<Longrightarrow> holds_mutex (pcs s a) \<Longrightarrow> holds_mutex (pcs s b) \<Longrightarrow> a = b"
  by (metis inv_mutex_holder option.inject)

lemma inv_mutex_free: "inv_mutex s \<Longrightarrow> writer_mutex s = None \<Longrightarrow> \<not> holds_mutex (pcs s a)"
  by (simp add: inv_mutex_def)

lemma inv_mutex_step:
  assumes "inv_mutex s" and "step n (t, c, cl) s = Some s'"
  shows "inv_mutex s'"
proof -
  have eq: "\<And>a. (writer_mutex s = Some a) = holds_mutex (pcs s a)"
    using assms(1) by (simp add: inv_mutex_def)
  have f: "\<And>a. writer_mutex s = None \<Longrightarrow> holds_mutex (pcs s a) = False"
    using inv_mutex_free [OF assms(1)] by simp
  have u: "\<And>b. holds_mutex (pcs s b) \<Longrightarrow> holds_mutex (pcs s t) \<Longrightarrow> b = t"
    using inv_mutex_unique [OF assms(1)] by blast
  show ?thesis
    unfolding inv_mutex_def
    using step_disj [OF assms(2)]
    by (elim disjE exE conjE) (auto simp: eq f dest: u)
qed

lemma sum_counted_upd:
  "t < n \<Longrightarrow> (\<Sum>u<n. counted (if u = t then p else pcs s u))
     = (\<Sum>u<n. counted (pcs s u)) - counted (pcs s t) + counted p"
  using sum_fun_upd_word [of t n counted "pcs s" p] by (simp add: fun_upd_def)

lemma sum_in_flight_upd:
  "t < n \<Longrightarrow> (\<Sum>u<n. in_flight (if u = t then p else pcs s u))
     = (\<Sum>u<n. in_flight (pcs s u)) - in_flight (pcs s t) + in_flight p"
  using sum_fun_upd_word [of t n in_flight "pcs s" p] by (simp add: fun_upd_def)

lemma sum_holds_rw_read_upd:
  "t < n \<Longrightarrow> (\<Sum>u<n. holds_rw_read (if u = t then p else pcs s u))
     = (\<Sum>u<n. holds_rw_read (pcs s u)) + holds_rw_read p - holds_rw_read (pcs s t)"
  using sum_fun_upd [of t n holds_rw_read "pcs s" p] by (simp add: fun_upd_def)

lemma inv_ctrs_step:
  assumes "inv_ctrs k s" and "step n (t, c, cl) s = Some s'"
  shows "inv_ctrs k s'"
proof -
  have at_t: "\<forall>c. pc_cpu (pcs s t) = Some c \<longrightarrow> c < k"
    using assms(1) by (simp add: inv_ctrs_def)
  show ?thesis
    using step_disj [OF assms(2)] assms(1) at_t
    by (elim disjE exE conjE) (auto simp: inv_ctrs_def nr_cpus_def)
qed

lemma holds_rw_write_mutex: "holds_rw_write p \<Longrightarrow> holds_mutex p"
  by (induction p rule: holds_rw_write.induct) simp_all

lemma past_sync_mutex: "past_sync p \<Longrightarrow> holds_mutex p"
  by (induction p rule: past_sync.induct) simp_all

lemma cleared_past_sync: "cleared p i \<Longrightarrow> past_sync p"
  by (induction p i rule: cleared.induct) simp_all

lemma at_add_in_region: "at_add p \<Longrightarrow> in_region p"
  by (induction p rule: at_add.induct) simp_all

lemma in_flight_mutex: "in_flight p \<noteq> 0 \<Longrightarrow> holds_mutex p"
  by (induction p rule: in_flight.induct) simp_all

lemma holds_rw_read_le_sum:
  "t < n \<Longrightarrow> holds_rw_read (pcs s t) \<le> (\<Sum>u<n. holds_rw_read (pcs s u))"
  using member_le_sum [of t "{..<n}" "\<lambda>u. holds_rw_read (pcs s u)"] by simp

lemma inv_rw_step:
  assumes "inv_rw n s" and "inv_mutex s" and "step n (t, c, cl) s = Some s'"
  shows "inv_rw n s'"
proof -
  have w: "rw_writer (rw_sem s) = holds_rw_write (writer_pc s)"
    and r: "rw_readers (rw_sem s) = (\<Sum>u<n. holds_rw_read (pcs s u))"
    and x: "rw_writer (rw_sem s) \<longrightarrow> rw_readers (rw_sem s) = 0"
    using assms(1) unfolding inv_rw_def by blast+
  have m: "(writer_mutex s = Some t) = holds_mutex (pcs s t)"
    using assms(2) by (simp add: inv_mutex_def)
  have le: "t < n \<longrightarrow> holds_rw_read (pcs s t) \<le> rw_readers (rw_sem s)"
    using holds_rw_read_le_sum [of t n s] r by simp
  have a: "rw_writer (rw_sem s') = holds_rw_write (writer_pc s')"
    using step_disj [OF assms(3)] w m
    by (elim disjE exE conjE) (auto simp: writer_pc_def split: option.splits)
  have b: "rw_readers (rw_sem s') = (\<Sum>u<n. holds_rw_read (pcs s' u))"
    using step_disj [OF assms(3)] le
    by (elim disjE exE conjE) (auto simp: sum_holds_rw_read_upd r [symmetric])
  have c: "rw_writer (rw_sem s') \<longrightarrow> rw_readers (rw_sem s') = 0"
    using step_disj [OF assms(3)] x
    by (elim disjE exE conjE) auto
  show ?thesis
    using a b c by (simp add: inv_rw_def)
qed

lemma inv_frozen_step:
  assumes "inv_frozen s" and "inv_mutex s" and "inv_idle n s"
    and "step n (t, c, cl) s = Some s'"
  shows "inv_frozen s'"
proof -
  have m: "(writer_mutex s = Some t) = holds_mutex (pcs s t)"
    using assms(2) by (simp add: inv_mutex_def)
  have f: "\<forall>a. at_add (pcs s a) \<longrightarrow>
        (case writer_mutex s of
           None \<Rightarrow> True
         | Some w \<Rightarrow>
             \<not> past_sync (pcs s w)
             \<and> (pcs s w = DownWrite (DW_sync S_wait) \<longrightarrow> a \<in> gp_pending s w))"
    using assms(1) by (simp add: inv_frozen_def)
  have i: "\<forall>a. at_add (pcs s a) \<longrightarrow> a < n \<and> in_region (pcs s a)"
  proof (intro allI impI conjI)
    fix a assume a: "at_add (pcs s a)"
    show "a < n" using a assms(3) by (cases "a < n") (auto simp: inv_idle_def)
    show "in_region (pcs s a)" using a by (rule at_add_in_region)
  qed
  show ?thesis
    unfolding inv_frozen_def
    using step_disj [OF assms(4)] m f i
    apply (elim disjE exE conjE)
    apply (auto split: option.splits if_splits)
    done
qed

lemma counted_le_1: "unat (counted p) \<le> 1"
  by (induction p rule: counted.induct) simp_all

lemma no_counted:
  assumes n: "n < 2 ^ 32" and z: "(\<Sum>u<n. counted (pcs s u)) = 0" and u: "u < n"
  shows "counted (pcs s u) = 0"
proof -
  let ?S = "\<Sum>u<n. unat (counted (pcs s u))"
  have eq: "(\<Sum>u<n. counted (pcs s u)) = of_nat ?S"
    by simp
  have "(of_nat ?S :: 32 word) = 0"
    using z unfolding eq .
  then have d: "(2::nat) ^ 32 dvd ?S"
    unfolding word_of_nat_eq_0_iff by simp
  have "?S \<le> (\<Sum>u<n. 1)"
    by (rule sum_mono) (rule counted_le_1)
  then have "?S < 2 ^ 32"
    using n by simp
  with d have "?S = 0"
    by (meson dvd_imp_le not_less neq0_conv)
  then have "unat (counted (pcs s u)) = 0"
    using u by simp
  then show ?thesis
    by (simp add: unat_eq_0)
qed

lemma inv_count_step:
  assumes "inv_count n s" and "inv_mutex s" and "step n (t, c, cl) s = Some s'"
  shows "inv_count n s'"
proof -
  obtain ctrs where c: "fast_read_ctr s = Some ctrs"
    and e: "(\<Sum>u<n. counted (pcs s u)) = sum_list ctrs + slow_read_ctr s + in_flight (writer_pc s)"
    using assms(1) by (auto simp: inv_count_def)
  have m: "(writer_mutex s = Some t) = holds_mutex (pcs s t)"
    using assms(2) by (simp add: inv_mutex_def)
  show ?thesis
    unfolding inv_count_def
    using step_disj [OF assms(3)] c m e 
    apply (elim disjE exE conjE)
    apply (simp_all add: sum_counted_upd sum_list_update_word writer_pc_def split: option.splits)
    done
qed

lemma inv_cleared_step:
  assumes "inv_cleared s" and "inv_mutex s" and "inv_frozen s"
    and "step n (t, c, cl) s = Some s'"
  shows "inv_cleared s'"
proof -
  have m: "(writer_mutex s = Some t) = holds_mutex (pcs s t)"
    using assms(2) by (simp add: inv_mutex_def)
  have z: "\<forall>ctrs i. fast_read_ctr s = Some ctrs \<longrightarrow> i < length ctrs \<longrightarrow>
        cleared (writer_pc s) i \<longrightarrow> ctrs ! i = 0"
    using assms(1) by (simp add: inv_cleared_def)
  have f: "at_add (pcs s t) \<longrightarrow> \<not> past_sync (writer_pc s)"
    using assms(3) by (auto simp: inv_frozen_def writer_pc_def split: option.splits)
  have cp: "\<forall>i. cleared (writer_pc s) i \<longrightarrow> past_sync (writer_pc s)"
    using cleared_past_sync by blast
  show ?thesis
    unfolding inv_cleared_def
    using step_disj [OF assms(4)] m z f cp
    apply (elim disjE exE conjE)
    apply (auto simp: writer_pc_def nth_list_update less_Suc_eq split: option.splits if_splits)
    done
qed

lemma sum_list_zero:
  fixes xs :: "32 word list"
  shows "(\<forall>i<length xs. xs ! i = 0) \<Longrightarrow> sum_list xs = 0"
  by (induction xs) fastforce+

lemma excl_no_counted:
  assumes n: "n < 2 ^ 32" and "inv_idle n s" and "inv_count n s" and "inv_cleared s"
    and "inv_excl s" and w: "writer_pc s = InWrite"
  shows "counted (pcs s u) = 0"
proof (cases "u < n")
  case False
  then show ?thesis using assms(2) by (simp add: inv_idle_def)
next
  case True
  obtain ctrs where c: "fast_read_ctr s = Some ctrs"
    and e: "(\<Sum>u<n. counted (pcs s u)) = sum_list ctrs + slow_read_ctr s + in_flight (writer_pc s)"
    using assms(3) by (auto simp: inv_count_def)
  have "\<forall>i<length ctrs. ctrs ! i = 0"
    using assms(4) c w by (simp add: inv_cleared_def)
  then have "sum_list ctrs = 0" by (rule sum_list_zero)
  moreover have "slow_read_ctr s = 0" using assms(5) w by (simp add: inv_excl_def)
  ultimately have "(\<Sum>u<n. counted (pcs s u)) = 0" using e w by simp
  then show ?thesis by (rule no_counted [OF n _ True])
qed

lemma inv_excl_step:
  assumes n: "n < 2 ^ 32" and "inv_idle n s" and "inv_count n s" and "inv_cleared s"
    and "inv_excl s" and "inv_mutex s" and "inv_rw n s"
    and "step n (t, c, cl) s = Some s'"
  shows "inv_excl s'"
proof -
  have m: "(writer_mutex s = Some t) = holds_mutex (pcs s t)"
    using assms(6) by (simp add: inv_mutex_def)
  have x: "writer_pc s = InWrite \<longrightarrow> slow_read_ctr s = 0"
    using assms(5) by (simp add: inv_excl_def)
  have k: "writer_pc s = InWrite \<longrightarrow> counted (pcs s t) = 0"
    using excl_no_counted [OF assms(1-5)] by blast
  have t: "t < n" using step_disj [OF assms(8)] by blast
  have "rw_writer (rw_sem s) \<longrightarrow> holds_rw_read (pcs s t) = 0"
    using assms(7) holds_rw_read_le_sum [OF t, of s] by (auto simp: inv_rw_def)
  then have r: "writer_pc s = InWrite \<longrightarrow> holds_rw_read (pcs s t) = 0"
    using assms(7) by (auto simp: inv_rw_def)
  show ?thesis
    unfolding inv_excl_def
    using step_disj [OF assms(8)] m x k r
    apply (elim disjE exE conjE)
    apply (auto simp: writer_pc_def split: option.splits if_splits)
    done
qed

section \<open>The invariant holds in every reachable state\<close>

lemma boot_simps:
  "fast_read_ctr (boot k) = Some (replicate k 0)"
  "writer_mutex (boot k) = None"
  "rw_sem (boot k) = \<lparr>rw_writer = False, rw_readers = 0\<rparr>"
  "slow_read_ctr (boot k) = 0"
  "write_waitq (boot k) = \<lparr>sleepers = {}, wakeups = 0\<rparr>"
  "pcs (boot k) = (\<lambda>t. Idle)"
  "gp_pending (boot k) = (\<lambda>t. {})"
  by (simp_all add: boot_def percpu_init_rwsem_def alloc_percpu_def blank_def Let_def)

lemma sum_list_replicate_0: "sum_list (replicate k (0::32 word)) = 0"
  by (induction k) simp_all

lemma invariant_boot: "invariant n k (boot k)"
  by (simp add: invariant_def inv_idle_def inv_ctrs_def inv_mutex_def inv_rw_def inv_frozen_def
      inv_count_def inv_cleared_def writer_pc_def boot_simps sum_list_replicate_0)

lemma inv_excl_boot: "inv_excl (boot k)"
  by (simp add: inv_excl_def writer_pc_def boot_simps)

lemma invariant_step:
  assumes "invariant n k s" and "step n e s = Some s'"
  shows "invariant n k s'"
proof -
  obtain t c cl where e: "e = (t, c, cl)" by (cases e)
  note st = assms(2) [unfolded e]
  from assms(1) have i: "inv_idle n s" "inv_ctrs k s" "inv_mutex s" "inv_rw n s"
    "inv_frozen s" "inv_count n s" "inv_cleared s"
    by (simp_all add: invariant_def)
  show ?thesis
    unfolding invariant_def
    using inv_idle_step [OF i(1) st] inv_ctrs_step [OF i(2) st] inv_mutex_step [OF i(3) st]
      inv_rw_step [OF i(4) i(3) st] inv_frozen_step [OF i(5) i(3) i(1) st]
      inv_count_step [OF i(6) i(3) st] inv_cleared_step [OF i(7) i(3) i(5) st]
    by blast
qed

lemma reachable_invariant: "reachable n k s \<Longrightarrow> invariant n k s"
  by (induction rule: reachable.induct) (auto intro: invariant_boot invariant_step)

lemma reachable_excl:
  assumes "n < 2 ^ 32" and "reachable n k s"
  shows "inv_excl s"
  using assms(2)
proof (induction rule: reachable.induct)
  case reachable_boot
  show ?case by (rule inv_excl_boot)
next
  case (reachable_step s e s')
  obtain t c cl where e: "e = (t, c, cl)" by (cases e)
  have i: "invariant n k s" using reachable_step.hyps(1) by (rule reachable_invariant)
  then have j: "inv_idle n s" "inv_count n s" "inv_cleared s" "inv_mutex s" "inv_rw n s"
    by (simp_all add: invariant_def)
  show ?case
    using inv_excl_step [OF assms(1) j(1) j(2) j(3) reachable_step.IH j(4) j(5)]
      reachable_step.hyps(2) e by blast
qed

lemma reachable_run:
  "reachable n k s \<Longrightarrow> run n es s = Some s' \<Longrightarrow> reachable n k s'"
proof (induction es arbitrary: s)
  case Nil
  then show ?case by simp
next
  case (Cons e es)
  then show ?case
    by (auto split: option.splits intro: reachable_step)
qed

lemma writer_pc_holder: "inv_mutex s \<Longrightarrow> holds_mutex (pcs s w) \<Longrightarrow> writer_pc s = pcs s w"
  by (simp add: writer_pc_def inv_mutex_holder)

lemma reachable_tid: "reachable n k s \<Longrightarrow> pcs s t \<noteq> Idle \<Longrightarrow> t < n"
  using reachable_invariant [of n k s] by (cases "t < n") (auto simp: invariant_def inv_idle_def)

section \<open>Evaluating example runs\<close>

lemmas eval_simps =
  step_def set_pc_def preempt_enable_def mutex_lock_def mutex_unlock_def down_read_def
  up_read_def down_write_def up_write_def go_to_sleep_def this_cpu_add_def atomic_inc_def
  atomic_add_def atomic_dec_and_test_def wake_up_all_def clear_iter_def mutex_is_locked_def
  nr_cpus_def boot_simps

lemma reachable_after: "run 2 es (boot 1) \<noteq> None \<Longrightarrow> reachable 2 1 (after es)"
  unfolding after_def using reachable_run [OF reachable_boot, of 2 es 1] by auto

lemma reachable_after_smp: "run 2 es (boot 2) \<noteq> None \<Longrightarrow> reachable 2 2 (after_smp es)"
  unfolding after_smp_def using reachable_run [OF reachable_boot, of 2 es 2] by auto

lemma run_append:
  "run n (es @ fs) s = (case run n es s of None \<Rightarrow> None | Some s' \<Rightarrow> run n fs s')"
  by (induction es arbitrary: s) (auto split: option.splits)

lemma after_step:
  "run 2 (es @ [e]) (boot 1) \<noteq> None \<Longrightarrow> step 2 e (after es) = Some (after (es @ [e]))"
  by (auto simp: after_def run_append split: option.splits)

lemma after_take_step:
  assumes "run 2 (take k' es) (boot 1) \<noteq> None" and "k' = Suc k" and "k < length es"
    and "es ! k = e"
  shows "step 2 e (after (take k es)) = Some (after (take k' es))"
  using after_step [of "take k es" e] assms by (simp add: take_Suc_conv_app_nth)

lemmas after_simps = after_def eval_simps numeral_eq_Suc

section \<open>Construction: the result of \<^verbatim>\<open>percpu_init_rwsem\<close>\<close>

text \<open>
  C8. \<^verbatim>\<open>percpu_init_rwsem\<close> returns \<^verbatim>\<open>-ENOMEM\<close> exactly when the per-cpu counters cannot be
  allocated. In that case it leaves the caller's structure as it was but for the counter
  pointer, which is \<^verbatim>\<open>NULL\<close>: no sub-lock is initialised and no storage is attached. On
  success it returns 0 with every per-cpu counter zero, the slow counter zero, the mutex
  free, the rw-semaphore free and the wait queue empty.
\<close>

theorem percpu_init_rwsem_result:
  "(fst (percpu_init_rwsem ncpus avail brw) = - ENOMEM) = (alloc_percpu ncpus avail = None)
   \<and> (alloc_percpu ncpus avail = None) = (\<not> avail)
   \<and> percpu_init_rwsem ncpus False brw = (- ENOMEM, brw\<lparr>fast_read_ctr := None\<rparr>)
   \<and> percpu_init_rwsem ncpus True brw =
       (0, brw\<lparr>fast_read_ctr := Some (replicate ncpus 0), writer_mutex := None,
               rw_sem := \<lparr>rw_writer = False, rw_readers = 0\<rparr>, slow_read_ctr := 0,
               write_waitq := \<lparr>sleepers = {}, wakeups = 0\<rparr>\<rparr>)"
  by (simp add: percpu_init_rwsem_def alloc_percpu_def ENOMEM_def Let_def)

theorem percpu_init_rwsem_result_witness:
  "percpu_init_rwsem 2 False blank = (- 12, blank)
   \<and> fst (percpu_init_rwsem 2 True blank) = 0
   \<and> fast_read_ctr (snd (percpu_init_rwsem 2 True blank)) = Some [0, 0]
   \<and> slow_read_ctr (snd (percpu_init_rwsem 2 True blank)) = 0"
  using percpu_init_rwsem_result [of 2 False blank] percpu_init_rwsem_result [of 2 True blank]
  by (simp add: ENOMEM_def blank_def numeral_2_eq_2)

section \<open>The drain\<close>

lemma sint_word_of_int_32:
  "- (2 ^ 31) \<le> x \<Longrightarrow> x < 2 ^ 31 \<Longrightarrow> sint (word_of_int x :: 32 word) = x"
  by (simp add: sint_sbintrunc' signed_take_bit_int_eq_self)

text \<open>
  The steps of the writer between the barrier and \<^verbatim>\<open>down_write\<close>, when no other task
  runs in between, compute the drain: one step for each cpu, one that leaves the loop and
  one for \<^verbatim>\<open>atomic_add\<close>.
\<close>

lemma clear_loop_run:
  assumes "t < n" and "pcs s t = DownWrite (DW_clear c sm)" and "fast_read_ctr s = Some ctrs"
    and "c + m = length ctrs"
  shows "run n (replicate m (t, c0, cl)) s =
     Some (s\<lparr>fast_read_ctr := Some (take c ctrs @ replicate m 0),
             pcs := (pcs s)(t := DownWrite (DW_clear (c + m) (sm + sum_list (drop c ctrs))))\<rparr>)"
  using assms(2-4)
proof (induction m arbitrary: s c sm ctrs)
  case 0
  then show ?case by (cases s) auto
next
  case (Suc m)
  let ?s1 = "s\<lparr>fast_read_ctr := Some (ctrs[c := 0]),
                pcs := (pcs s)(t := DownWrite (DW_clear (Suc c) (sm + ctrs ! c)))\<rparr>"
  have c: "c < length ctrs" using Suc.prems(3) by simp
  have st: "step n (t, c0, cl) s = Some ?s1"
    using assms(1) Suc.prems(1,2) c by (simp add: step_def clear_iter_def set_pc_def)
  have d: "sum_list (drop c ctrs) = ctrs ! c + sum_list (drop (Suc c) ctrs)"
    using c by (simp add: Cons_nth_drop_Suc [symmetric])
  have tk: "take (Suc c) (ctrs[c := 0]) @ replicate m 0 = take c ctrs @ replicate (Suc m) 0"
    using c by (simp add: take_Suc_conv_app_nth)
  have "run n (replicate (Suc m) (t, c0, cl)) s = run n (replicate m (t, c0, cl)) ?s1"
    using st by simp
  also have "\<dots> =
     Some (?s1\<lparr>fast_read_ctr := Some (take (Suc c) (ctrs[c := 0]) @ replicate m 0),
             pcs := (pcs ?s1)(t := DownWrite (DW_clear (Suc c + m)
                      (sm + ctrs ! c + sum_list (drop (Suc c) (ctrs[c := 0])))))\<rparr>)"
    by (rule Suc.IH) (use Suc.prems(3) in simp_all)
  also have "\<dots> =
     Some (s\<lparr>fast_read_ctr := Some (take c ctrs @ replicate (Suc m) 0),
             pcs := (pcs s)(t := DownWrite (DW_clear (c + Suc m) (sm + sum_list (drop c ctrs))))\<rparr>)"
    unfolding tk d by (simp add: add.assoc)
  finally show ?case .
qed

lemma drain_run:
  assumes "t < n" and "pcs s t = DownWrite (DW_clear 0 0)" and "fast_read_ctr s = Some ctrs"
  shows "run n (replicate (length ctrs + 2) (t, c0, cl)) s
           = map_option (set_pc t (DownWrite DW_down_write)) (drain s)"
proof -
  let ?e = "(t, c0, cl)"
  let ?s1 = "s\<lparr>fast_read_ctr := Some (replicate (length ctrs) 0),
             pcs := (pcs s)(t := DownWrite (DW_clear (length ctrs) (sum_list ctrs)))\<rparr>"
  have 1: "run n (replicate (length ctrs) ?e) s = Some ?s1"
    using clear_loop_run [OF assms(1,2,3), of "length ctrs" c0 cl] by simp
  have 2: "run n (replicate 2 ?e) ?s1
      = Some (s\<lparr>fast_read_ctr := Some (replicate (length ctrs) 0),
               slow_read_ctr := slow_read_ctr s + sum_list ctrs,
               pcs := (pcs s)(t := DownWrite DW_down_write)\<rparr>)"
    using assms(1) by (simp add: numeral_2_eq_2 step_def set_pc_def atomic_add_def)
  have "replicate (length ctrs + 2) ?e = replicate (length ctrs) ?e @ replicate 2 ?e"
    by (simp only: replicate_add)
  then have "run n (replicate (length ctrs + 2) ?e) s
      = Some (s\<lparr>fast_read_ctr := Some (replicate (length ctrs) 0),
               slow_read_ctr := slow_read_ctr s + sum_list ctrs,
               pcs := (pcs s)(t := DownWrite DW_down_write)\<rparr>)"
    using 1 2 by (simp only: run_append option.case)
  moreover have "drain s = Some (s\<lparr>fast_read_ctr := Some (replicate (length ctrs) 0),
                     slow_read_ctr := slow_read_ctr s + sum_list ctrs\<rparr>)"
    using assms(3) by (simp add: drain_def clear_fast_ctr_Some atomic_add_def)
  ultimately show ?thesis by (simp add: set_pc_def)
qed

text \<open>
  Whatever the other tasks do during the drain, once it is done the fast counters are zero
  and the slow counter is the number of readers counted in.
\<close>

lemma drained_state:
  assumes "reachable n k s" and "pcs s t = DownWrite DW_down_write"
  shows "fast_read_ctr s = Some (replicate k 0)
     \<and> slow_read_ctr s = (\<Sum>u<n. counted (pcs s u))"
proof -
  have i: "invariant n k s" using assms(1) by (rule reachable_invariant)
  then have j: "inv_ctrs k s" "inv_mutex s" "inv_count n s" "inv_cleared s"
    by (simp_all add: invariant_def)
  have wp: "writer_pc s = DownWrite DW_down_write"
    using writer_pc_holder [OF j(2), of t] assms(2) by simp
  obtain ctrs where c: "fast_read_ctr s = Some ctrs" "length ctrs = k"
    using j(1) by (auto simp: inv_ctrs_def)
  have z: "\<forall>i<length ctrs. ctrs ! i = 0"
    using j(4) c wp by (simp add: inv_cleared_def)
  then have r: "ctrs = replicate k 0"
    using c(2) by (auto simp: list_eq_iff_nth_eq)
  have "sum_list ctrs = 0" using z by (rule sum_list_zero)
  moreover have "(\<Sum>u<n. counted (pcs s u))
      = sum_list ctrs + slow_read_ctr s + in_flight (writer_pc s)"
    using j(3) c by (auto simp: inv_count_def)
  ultimately show ?thesis using c r wp by simp
qed

text \<open>
  C4. The drain \<^verbatim>\<open>atomic_add(clear_fast_ctr(brw), &brw->slow_read_ctr)\<close>, from any state
  with allocated counters: afterwards every per-cpu counter is zero, and the slow counter
  is its previous value plus the sum of the per-cpu counters before the drain, each counter
  taken once, nothing else changed. The sum is the machine's (modulo \<open>2 ^ 32\<close>); where the
  exact sum of the signed values fits an \<^verbatim>\<open>int\<close>, it is that sum. The writer's steps
  compute this drain when no other task runs in between; and in every interleaving, in the
  state where the writer has completed the drain, every per-cpu counter is zero and the slow
  counter is the number of readers counted in (modulo \<open>2 ^ 32\<close>).
\<close>

theorem drain_postcondition:
  fixes s :: system
  shows "(fast_read_ctr s = Some ctrs \<longrightarrow>
        drain s =
           Some (s\<lparr>fast_read_ctr := Some (replicate (length ctrs) 0),
                   slow_read_ctr := slow_read_ctr s + sum_list ctrs\<rparr>)
        \<and> (- (2 ^ 31) \<le> sint (slow_read_ctr s) + (\<Sum>x\<leftarrow>ctrs. sint x)
              \<and> sint (slow_read_ctr s) + (\<Sum>x\<leftarrow>ctrs. sint x) < 2 ^ 31
            \<longrightarrow> sint (slow_read_ctr s + sum_list ctrs)
                  = sint (slow_read_ctr s) + (\<Sum>x\<leftarrow>ctrs. sint x)))
     \<and> (fast_read_ctr s = Some ctrs \<and> t < n \<and> pcs s t = DownWrite (DW_clear 0 0) \<longrightarrow>
          run n (replicate (length ctrs + 2) (t, c, cl)) s
            = map_option (set_pc t (DownWrite DW_down_write)) (drain s))
     \<and> (reachable n ncpus s \<and> pcs s t = DownWrite DW_down_write \<longrightarrow>
          fast_read_ctr s = Some (replicate ncpus 0)
          \<and> slow_read_ctr s = (\<Sum>u<n. counted (pcs s u)))"
proof -
  have e: "slow_read_ctr s + sum_list ctrs
          = word_of_int (sint (slow_read_ctr s) + (\<Sum>x\<leftarrow>ctrs. sint x))"
    by (simp add: sum_list_sint)
  have a: "fast_read_ctr s = Some ctrs \<longrightarrow> drain s =
           Some (s\<lparr>fast_read_ctr := Some (replicate (length ctrs) 0),
                   slow_read_ctr := slow_read_ctr s + sum_list ctrs\<rparr>)"
    by (simp add: drain_def clear_fast_ctr_Some atomic_add_def)
  have b: "- (2 ^ 31) \<le> sint (slow_read_ctr s) + (\<Sum>x\<leftarrow>ctrs. sint x)
              \<and> sint (slow_read_ctr s) + (\<Sum>x\<leftarrow>ctrs. sint x) < 2 ^ 31
            \<longrightarrow> sint (slow_read_ctr s + sum_list ctrs)
                  = sint (slow_read_ctr s) + (\<Sum>x\<leftarrow>ctrs. sint x)"
    unfolding e using sint_word_of_int_32 by blast
  have c: "fast_read_ctr s = Some ctrs \<and> t < n \<and> pcs s t = DownWrite (DW_clear 0 0) \<longrightarrow>
          run n (replicate (length ctrs + 2) (t, c, cl)) s
            = map_option (set_pc t (DownWrite DW_down_write)) (drain s)"
    using drain_run by blast
  have d: "reachable n ncpus s \<and> pcs s t = DownWrite DW_down_write \<longrightarrow>
          fast_read_ctr s = Some (replicate ncpus 0)
          \<and> slow_read_ctr s = (\<Sum>u<n. counted (pcs s u))"
    using drained_state by blast
  show ?thesis using a b c d by blast
qed

theorem drain_postcondition_witness:
  "fast_read_ctr (after (take 9 sched_excl)) = Some [1]
   \<and> slow_read_ctr (after (take 9 sched_excl)) = 0
   \<and> pcs (after (take 9 sched_excl)) 0 = DownWrite (DW_clear 0 0)
   \<and> drain (after (take 9 sched_excl))
       = Some ((after (take 9 sched_excl))\<lparr>fast_read_ctr := Some [0], slow_read_ctr :=
           1\<rparr>)
   \<and> run 2 (replicate (1 + 2) (0, 0, CallWrite)) (after (take 9 sched_excl))
       = map_option (set_pc 0 (DownWrite DW_down_write)) (drain (after (take 9 sched_excl)))
   \<and> reachable 2 1 (after (take 12 sched_excl))
   \<and> pcs (after (take 12 sched_excl)) 0 = DownWrite DW_down_write
   \<and> fast_read_ctr (after (take 12 sched_excl)) = Some [0]
   \<and> slow_read_ctr (after (take 12 sched_excl)) = 1"
proof -
  have f: "fast_read_ctr (after (take 9 sched_excl)) = Some [1]"
    by (simp add: sched_excl_def after_simps)
  have sl: "slow_read_ctr (after (take 9 sched_excl)) = 0"
    by (simp add: sched_excl_def after_simps)
  have p: "pcs (after (take 9 sched_excl)) 0 = DownWrite (DW_clear 0 0)"
    by (simp add: sched_excl_def after_simps)
  have r: "reachable 2 1 (after (take 12 sched_excl))"
    by (rule reachable_after) (simp add: sched_excl_def eval_simps numeral_eq_Suc)
  have q: "pcs (after (take 12 sched_excl)) 0 = DownWrite DW_down_write"
    by (simp add: sched_excl_def after_simps)
  have cn: "(\<Sum>u<2. counted (pcs (after (take 12 sched_excl)) u)) = 1"
    by (simp add: sched_excl_def after_simps lessThan_Suc)
  have o: "replicate 1 (0 :: 32 word) = [0]" by simp
  have l: "length [1 :: 32 word] = 1" by simp
  have z2: "(0::nat) < 2" by simp
  note th = drain_postcondition [where s = "after (take 9 sched_excl)" and ctrs = "[1]"
      and t = 0 and n = 2 and c = 0 and cl = CallWrite]
  have d: "drain (after (take 9 sched_excl))
       = Some ((after (take 9 sched_excl))\<lparr>fast_read_ctr := Some [0], slow_read_ctr :=
           1\<rparr>)"
    using th f sl by simp
  have ru: "run 2 (replicate (1 + 2) (0, 0, CallWrite)) (after (take 9 sched_excl))
       = map_option (set_pc 0 (DownWrite DW_down_write)) (drain (after (take 9 sched_excl)))"
    using th f p z2 unfolding l by blast
  have g: "fast_read_ctr (after (take 12 sched_excl)) = Some [0]"
    and h: "slow_read_ctr (after (take 12 sched_excl)) = 1"
    using drain_postcondition [where s = "after (take 12 sched_excl)" and t = 0 and n = 2
        and ncpus = 1] r q unfolding cn o by blast+
  show ?thesis
    by (intro conjI; fact)
qed

section \<open>Mutual exclusion\<close>

text \<open>
  The barrier at work: task 1 has found the mutex free and is about to add to its counter
  when task 0 takes the mutex and calls the barrier. Task 0 cannot leave the barrier before
  task 1 has added and enabled preemption; the drain then finds the reader's 1.
\<close>

lemma barrier_waits_for_reader:
  "pcs (after (replicate 3 (1, 0, CallRead) @ replicate 3 (0, 0, CallWrite))) 1
     = DownRead (DR_ufc (U_add 0))
   \<and> pcs (after (replicate 3 (1, 0, CallRead) @ replicate 3 (0, 0, CallWrite))) 0
       = DownWrite (DW_sync S_wait)
   \<and> step 2 (0, 0, CallWrite)
        (after (replicate 3 (1, 0, CallRead) @ replicate 3 (0, 0, CallWrite))) = None
   \<and> pcs (after (replicate 3 (1, 0, CallRead) @ replicate 3 (0, 0, CallWrite)
                 @ replicate 2 (1, 0, CallRead) @ replicate 4 (0, 0, CallWrite))) 0
       = DownWrite DW_down_write
   \<and> slow_read_ctr (after (replicate 3 (1, 0, CallRead) @ replicate 3 (0, 0, CallWrite)
                 @ replicate 2 (1, 0, CallRead) @ replicate 4 (0, 0, CallWrite))) = 1"
  by (simp add: after_simps)

text \<open>
  C1. In every reachable state of a system of fewer than \<open>2 ^ 32\<close> tasks (every
  interleaving of the four operations, statement by statement): while a task is in its
  write critical section (\<^verbatim>\<open>percpu_down_write\<close> has returned, \<^verbatim>\<open>percpu_up_write\<close> is not
  called yet), no task is in a read critical section, so no \<^verbatim>\<open>percpu_down_write\<close>
  completes while a read section is open; and no fast path of \<^verbatim>\<open>percpu_down_read\<close>
  succeeds: the mutex is locked, a reader that tests it takes the slow path, and no reader
  is between a test that found the mutex free and its return.
\<close>

theorem mutual_exclusion:
  assumes "n < 2 ^ 32" and "reachable n ncpus s" and "pcs s w = InWrite"
  shows "pcs s t \<noteq> InRead
     \<and> (\<forall>c. pcs s t \<noteq> DownRead (DR_ufc (U_add c)))
     \<and> (\<forall>c. pcs s t \<noteq> DownRead (DR_ufc (U_enable c True)))
     \<and> mutex_is_locked (writer_mutex s)
     \<and> (\<forall>c c' cl. pcs s t = DownRead (DR_ufc (U_check c)) \<longrightarrow>
          step n (t, c', cl) s = Some (set_pc t (DownRead (DR_ufc (U_enable c False))) s))"
proof -
  have i: "invariant n ncpus s" using assms(2) by (rule reachable_invariant)
  then have j: "inv_idle n s" "inv_count n s" "inv_cleared s" "inv_mutex s" "inv_frozen s"
    by (simp_all add: invariant_def)
  have x: "inv_excl s" using assms(1,2) by (rule reachable_excl)
  have h: "holds_mutex (pcs s w)" using assms(3) by simp
  have m: "writer_mutex s = Some w" using j(4) h by (rule inv_mutex_holder)
  have wp: "writer_pc s = InWrite" using m assms(3) by (simp add: writer_pc_def)
  have c0: "counted (pcs s t) = 0"
    using assms(1) j(1) j(2) j(3) x wp by (rule excl_no_counted)
  have na: "\<not> at_add (pcs s t)"
    using j(5) m assms(3) by (auto simp: inv_frozen_def)
  have tn: "pcs s t \<noteq> Idle \<longrightarrow> t < n"
    using j(1) by (cases "t < n") (auto simp: inv_idle_def)
  have a: "pcs s t \<noteq> InRead" using c0 by auto
  have b: "\<forall>c. pcs s t \<noteq> DownRead (DR_ufc (U_add c))" using na by auto
  have c: "\<forall>c. pcs s t \<noteq> DownRead (DR_ufc (U_enable c True))" using c0 by auto
  have d: "mutex_is_locked (writer_mutex s)" using m by (simp add: mutex_is_locked_def)
  have e: "\<forall>c c' cl. pcs s t = DownRead (DR_ufc (U_check c)) \<longrightarrow>
          step n (t, c', cl) s = Some (set_pc t (DownRead (DR_ufc (U_enable c False))) s)"
    using tn d by (auto simp: step_def)
  show ?thesis using a b c d e by blast
qed

theorem mutual_exclusion_witness:
  "(2::nat) < 2 ^ 32 \<and> reachable 2 1 (after sched_excl)
   \<and> pcs (after sched_excl) 0 = InWrite
   \<and> pcs (after sched_excl) 1 = DownRead (DR_ufc (U_check 0))
   \<and> pcs (after sched_excl) 1 \<noteq> InRead
   \<and> mutex_is_locked (writer_mutex (after sched_excl))
   \<and> step 2 (1, 0, CallRead) (after sched_excl)
       = Some (set_pc 1 (DownRead (DR_ufc (U_enable 0 False))) (after sched_excl))"
proof -
  have n: "(2::nat) < 2 ^ 32" by simp
  have r: "reachable 2 1 (after sched_excl)"
    by (rule reachable_after) (simp add: sched_excl_def eval_simps numeral_eq_Suc)
  have w: "pcs (after sched_excl) 0 = InWrite"
    by (simp add: sched_excl_def after_simps)
  have c: "pcs (after sched_excl) 1 = DownRead (DR_ufc (U_check 0))"
    by (simp add: sched_excl_def after_simps)
  show ?thesis
    using mutual_exclusion [OF n r w, of 1] r w c by simp
qed

section \<open>The order of \<^verbatim>\<open>percpu_down_write\<close>\<close>

text \<open>
  C2. A step of a task moves no other task, and every step that moves a task inside
  \<^verbatim>\<open>percpu_down_write\<close> moves it from the stage before: (1) \<^verbatim>\<open>mutex_lock\<close> takes the
  free mutex; (2) the barrier is called and is waited for; (3) the loop of
  \<^verbatim>\<open>clear_fast_ctr\<close> starts only after the barrier has returned, adds the counter of each
  cpu in turn to the sum and sets it to zero, and the sum is added to the slow counter;
  (4) \<^verbatim>\<open>down_write\<close> takes the free rw-semaphore; (5) the task sleeps while the slow
  counter is not zero. The function returns only from the test of \<^verbatim>\<open>wait_event\<close>, with
  the slow counter zero; the writer then holds the mutex and the rw-semaphore, and every
  fast counter and the slow counter are zero.
\<close>

theorem percpu_down_write_order:
  assumes "n < 2 ^ 32" and "reachable n ncpus s" and "step n (t, c, cl) s = Some s'"
  shows "(\<forall>u. u \<noteq> t \<longrightarrow> pcs s' u = pcs s u)
   \<and> (pcs s' t = DownWrite DW_lock \<longrightarrow> pcs s t = Idle)
   \<and> (pcs s' t = DownWrite (DW_sync S_call) \<longrightarrow>
        pcs s t = DownWrite DW_lock \<and> writer_mutex s = None \<and> writer_mutex s' = Some t)
   \<and> (pcs s' t = DownWrite (DW_sync S_wait) \<longrightarrow> pcs s t = DownWrite (DW_sync S_call))
   \<and> (pcs s' t = DownWrite (DW_clear 0 0) \<longrightarrow>
        pcs s t = DownWrite (DW_sync S_wait) \<and> gp_pending s t = {})
   \<and> (\<forall>c' sm. pcs s' t = DownWrite (DW_clear (Suc c') sm) \<longrightarrow>
        (\<exists>sm0 ctrs. pcs s t = DownWrite (DW_clear c' sm0) \<and> fast_read_ctr s = Some ctrs
           \<and> c' < length ctrs \<and> sm = sm0 + ctrs ! c'
           \<and> fast_read_ctr s' = Some (ctrs[c' := 0])))
   \<and> (\<forall>v. pcs s' t = DownWrite (DW_add v) \<longrightarrow>
        (\<exists>c'. pcs s t = DownWrite (DW_clear c' v) \<and> nr_cpus s \<le> c'))
   \<and> (pcs s' t = DownWrite DW_down_write \<longrightarrow>
        (\<exists>v. pcs s t = DownWrite (DW_add v) \<and> slow_read_ctr s' = slow_read_ctr s + v))
   \<and> (pcs s' t = DownWrite DW_wait \<longrightarrow>
        pcs s t = DownWrite DW_sleep
        \<or> pcs s t = DownWrite DW_down_write \<and> \<not> rw_writer (rw_sem s)
            \<and> rw_readers (rw_sem s) = 0 \<and> rw_writer (rw_sem s'))
   \<and> (pcs s' t = DownWrite DW_sleep \<longrightarrow>
        pcs s t = DownWrite DW_wait \<and> slow_read_ctr s \<noteq> 0)
   \<and> (pcs s' t = InWrite \<longrightarrow>
        pcs s t = DownWrite DW_wait \<and> slow_read_ctr s = 0
        \<and> writer_mutex s' = Some t \<and> rw_writer (rw_sem s')
        \<and> fast_read_ctr s' = Some (replicate ncpus 0) \<and> slow_read_ctr s' = 0)"
proof -
  have chain: "(\<forall>u. u \<noteq> t \<longrightarrow> pcs s' u = pcs s u)
   \<and> (pcs s' t = DownWrite DW_lock \<longrightarrow> pcs s t = Idle)
   \<and> (pcs s' t = DownWrite (DW_sync S_call) \<longrightarrow>
        pcs s t = DownWrite DW_lock \<and> writer_mutex s = None \<and> writer_mutex s' = Some t)
   \<and> (pcs s' t = DownWrite (DW_sync S_wait) \<longrightarrow> pcs s t = DownWrite (DW_sync S_call))
   \<and> (pcs s' t = DownWrite (DW_clear 0 0) \<longrightarrow>
        pcs s t = DownWrite (DW_sync S_wait) \<and> gp_pending s t = {})
   \<and> (\<forall>c' sm. pcs s' t = DownWrite (DW_clear (Suc c') sm) \<longrightarrow>
        (\<exists>sm0 ctrs. pcs s t = DownWrite (DW_clear c' sm0) \<and> fast_read_ctr s = Some ctrs
           \<and> c' < length ctrs \<and> sm = sm0 + ctrs ! c'
           \<and> fast_read_ctr s' = Some (ctrs[c' := 0])))
   \<and> (\<forall>v. pcs s' t = DownWrite (DW_add v) \<longrightarrow>
        (\<exists>c'. pcs s t = DownWrite (DW_clear c' v) \<and> nr_cpus s \<le> c'))
   \<and> (pcs s' t = DownWrite DW_down_write \<longrightarrow>
        (\<exists>v. pcs s t = DownWrite (DW_add v) \<and> slow_read_ctr s' = slow_read_ctr s + v))
   \<and> (pcs s' t = DownWrite DW_wait \<longrightarrow>
        pcs s t = DownWrite DW_sleep
        \<or> pcs s t = DownWrite DW_down_write \<and> \<not> rw_writer (rw_sem s)
            \<and> rw_readers (rw_sem s) = 0 \<and> rw_writer (rw_sem s'))
   \<and> (pcs s' t = DownWrite DW_sleep \<longrightarrow>
        pcs s t = DownWrite DW_wait \<and> slow_read_ctr s \<noteq> 0)
   \<and> (pcs s' t = InWrite \<longrightarrow> pcs s t = DownWrite DW_wait \<and> slow_read_ctr s = 0)"
    using step_disj [OF assms(3)]
    by (elim disjE exE conjE) (simp_all add: nr_cpus_def)
  have r': "reachable n ncpus s'" using assms(2,3) by (rule reachable_step)
  have post: "pcs s' t = InWrite \<longrightarrow>
        writer_mutex s' = Some t \<and> rw_writer (rw_sem s')
        \<and> fast_read_ctr s' = Some (replicate ncpus 0) \<and> slow_read_ctr s' = 0"
  proof
    assume w: "pcs s' t = InWrite"
    have i: "invariant n ncpus s'" using r' by (rule reachable_invariant)
    then have j: "inv_ctrs ncpus s'" "inv_mutex s'" "inv_rw n s'" "inv_cleared s'"
      by (simp_all add: invariant_def)
    have x: "inv_excl s'" using assms(1) r' by (rule reachable_excl)
    have m: "writer_mutex s' = Some t" using j(2) w by (simp add: inv_mutex_holder)
    have wp: "writer_pc s' = InWrite" using m w by (simp add: writer_pc_def)
    obtain ctrs where c: "fast_read_ctr s' = Some ctrs" "length ctrs = ncpus"
      using j(1) by (auto simp: inv_ctrs_def)
    have "\<forall>i<length ctrs. ctrs ! i = 0"
      using j(4) c wp by (simp add: inv_cleared_def)
    then have "ctrs = replicate ncpus 0"
      using c(2) by (auto simp: list_eq_iff_nth_eq)
    then show "writer_mutex s' = Some t \<and> rw_writer (rw_sem s')
        \<and> fast_read_ctr s' = Some (replicate ncpus 0) \<and> slow_read_ctr s' = 0"
      using m wp c j(3) x by (simp add: inv_rw_def inv_excl_def)
  qed
  show ?thesis using chain post by blast
qed

theorem percpu_down_write_order_witness:
  "(2::nat) < 2 ^ 32
   \<and> reachable 2 1 (after (take 5 sched_excl))
   \<and> step 2 (0, 0, CallWrite) (after (take 5 sched_excl))
       = Some (after (take 6 sched_excl))
   \<and> reachable 2 1 (after (take 6 sched_excl))
   \<and> step 2 (0, 0, CallWrite) (after (take 6 sched_excl))
       = Some (after (take 7 sched_excl))
   \<and> reachable 2 1 (after (take 7 sched_excl))
   \<and> step 2 (0, 0, CallWrite) (after (take 7 sched_excl))
       = Some (after (take 8 sched_excl))
   \<and> reachable 2 1 (after (take 8 sched_excl))
   \<and> step 2 (0, 0, CallWrite) (after (take 8 sched_excl))
       = Some (after (take 9 sched_excl))
   \<and> reachable 2 1 (after (take 9 sched_excl))
   \<and> step 2 (0, 0, CallWrite) (after (take 9 sched_excl))
       = Some (after (take 10 sched_excl))
   \<and> reachable 2 1 (after (take 10 sched_excl))
   \<and> step 2 (0, 0, CallWrite) (after (take 10 sched_excl))
       = Some (after (take 11 sched_excl))
   \<and> reachable 2 1 (after (take 11 sched_excl))
   \<and> step 2 (0, 0, CallWrite) (after (take 11 sched_excl))
       = Some (after (take 12 sched_excl))
   \<and> reachable 2 1 (after (take 12 sched_excl))
   \<and> step 2 (0, 0, CallWrite) (after (take 12 sched_excl))
       = Some (after (take 13 sched_excl))
   \<and> reachable 2 1 (after (take 13 sched_excl))
   \<and> step 2 (0, 0, CallWrite) (after (take 13 sched_excl))
       = Some (after (take 14 sched_excl))
   \<and> reachable 2 1 (after (take 19 sched_excl))
   \<and> step 2 (0, 0, CallWrite) (after (take 19 sched_excl))
       = Some (after (take 20 sched_excl))
   \<and> reachable 2 1 (after (take 20 sched_excl))
   \<and> step 2 (0, 0, CallWrite) (after (take 20 sched_excl))
       = Some (after (take 21 sched_excl))
   \<and> pcs (after (take 5 sched_excl)) 0 = Idle
   \<and> pcs (after (take 6 sched_excl)) 0 = DownWrite DW_lock
   \<and> pcs (after (take 7 sched_excl)) 0 = DownWrite (DW_sync S_call)
   \<and> pcs (after (take 8 sched_excl)) 0 = DownWrite (DW_sync S_wait)
   \<and> pcs (after (take 9 sched_excl)) 0 = DownWrite (DW_clear 0 0)
   \<and> pcs (after (take 10 sched_excl)) 0 = DownWrite (DW_clear (Suc 0) 1)
   \<and> pcs (after (take 11 sched_excl)) 0 = DownWrite (DW_add 1)
   \<and> pcs (after (take 12 sched_excl)) 0 = DownWrite DW_down_write
   \<and> pcs (after (take 13 sched_excl)) 0 = DownWrite DW_wait
   \<and> pcs (after (take 14 sched_excl)) 0 = DownWrite DW_sleep
   \<and> pcs (after (take 19 sched_excl)) 0 = DownWrite DW_sleep
   \<and> pcs (after (take 20 sched_excl)) 0 = DownWrite DW_wait
   \<and> pcs (after (take 21 sched_excl)) 0 = InWrite
   \<and> writer_mutex (after (take 6 sched_excl)) = None
   \<and> writer_mutex (after (take 7 sched_excl)) = Some 0
   \<and> slow_read_ctr (after (take 13 sched_excl)) \<noteq> 0
   \<and> writer_mutex (after (take 21 sched_excl)) = Some 0
   \<and> rw_writer (rw_sem (after (take 21 sched_excl)))
   \<and> fast_read_ctr (after (take 21 sched_excl)) = Some [0]
   \<and> slow_read_ctr (after (take 21 sched_excl)) = 0"
proof -
  have n: "(2::nat) < 2 ^ 32" by simp
  have o: "replicate 1 (0 :: 32 word) = [0]" by simp
  have p5: "pcs (after (take 5 sched_excl)) 0 = Idle"
    by (simp add: sched_excl_def after_simps)
  have p6: "pcs (after (take 6 sched_excl)) 0 = DownWrite DW_lock"
    by (simp add: sched_excl_def after_simps)
  have p7: "pcs (after (take 7 sched_excl)) 0 = DownWrite (DW_sync S_call)"
    by (simp add: sched_excl_def after_simps)
  have p8: "pcs (after (take 8 sched_excl)) 0 = DownWrite (DW_sync S_wait)"
    by (simp add: sched_excl_def after_simps)
  have p9: "pcs (after (take 9 sched_excl)) 0 = DownWrite (DW_clear 0 0)"
    by (simp add: sched_excl_def after_simps)
  have p10: "pcs (after (take 10 sched_excl)) 0 = DownWrite (DW_clear (Suc 0) 1)"
    by (simp add: sched_excl_def after_simps)
  have p11: "pcs (after (take 11 sched_excl)) 0 = DownWrite (DW_add 1)"
    by (simp add: sched_excl_def after_simps)
  have p12: "pcs (after (take 12 sched_excl)) 0 = DownWrite DW_down_write"
    by (simp add: sched_excl_def after_simps)
  have p13: "pcs (after (take 13 sched_excl)) 0 = DownWrite DW_wait"
    by (simp add: sched_excl_def after_simps)
  have p14: "pcs (after (take 14 sched_excl)) 0 = DownWrite DW_sleep"
    by (simp add: sched_excl_def after_simps)
  have p19: "pcs (after (take 19 sched_excl)) 0 = DownWrite DW_sleep"
    by (simp add: sched_excl_def after_simps)
  have p20: "pcs (after (take 20 sched_excl)) 0 = DownWrite DW_wait"
    by (simp add: sched_excl_def after_simps)
  have p21: "pcs (after (take 21 sched_excl)) 0 = InWrite"
    by (simp add: sched_excl_def after_simps)
  have r5: "reachable 2 1 (after (take 5 sched_excl))"
    by (rule reachable_after) (simp add: sched_excl_def eval_simps numeral_eq_Suc)
  have s5: "step 2 (0, 0, CallWrite) (after (take 5 sched_excl))
       = Some (after (take 6 sched_excl))"
    apply (rule after_take_step)
       apply (simp add: sched_excl_def eval_simps numeral_eq_Suc)
      apply simp
     apply (simp add: sched_excl_def)
    apply (simp add: sched_excl_def nth_append)
    done
  have r6: "reachable 2 1 (after (take 6 sched_excl))"
    by (rule reachable_after) (simp add: sched_excl_def eval_simps numeral_eq_Suc)
  have s6: "step 2 (0, 0, CallWrite) (after (take 6 sched_excl))
       = Some (after (take 7 sched_excl))"
    apply (rule after_take_step)
       apply (simp add: sched_excl_def eval_simps numeral_eq_Suc)
      apply simp
     apply (simp add: sched_excl_def)
    apply (simp add: sched_excl_def nth_append)
    done
  have r7: "reachable 2 1 (after (take 7 sched_excl))"
    by (rule reachable_after) (simp add: sched_excl_def eval_simps numeral_eq_Suc)
  have s7: "step 2 (0, 0, CallWrite) (after (take 7 sched_excl))
       = Some (after (take 8 sched_excl))"
    apply (rule after_take_step)
       apply (simp add: sched_excl_def eval_simps numeral_eq_Suc)
      apply simp
     apply (simp add: sched_excl_def)
    apply (simp add: sched_excl_def nth_append)
    done
  have r8: "reachable 2 1 (after (take 8 sched_excl))"
    by (rule reachable_after) (simp add: sched_excl_def eval_simps numeral_eq_Suc)
  have s8: "step 2 (0, 0, CallWrite) (after (take 8 sched_excl))
       = Some (after (take 9 sched_excl))"
    apply (rule after_take_step)
       apply (simp add: sched_excl_def eval_simps numeral_eq_Suc)
      apply simp
     apply (simp add: sched_excl_def)
    apply (simp add: sched_excl_def nth_append)
    done
  have r9: "reachable 2 1 (after (take 9 sched_excl))"
    by (rule reachable_after) (simp add: sched_excl_def eval_simps numeral_eq_Suc)
  have s9: "step 2 (0, 0, CallWrite) (after (take 9 sched_excl))
       = Some (after (take 10 sched_excl))"
    apply (rule after_take_step)
       apply (simp add: sched_excl_def eval_simps numeral_eq_Suc)
      apply simp
     apply (simp add: sched_excl_def)
    apply (simp add: sched_excl_def nth_append)
    done
  have r10: "reachable 2 1 (after (take 10 sched_excl))"
    by (rule reachable_after) (simp add: sched_excl_def eval_simps numeral_eq_Suc)
  have s10: "step 2 (0, 0, CallWrite) (after (take 10 sched_excl))
       = Some (after (take 11 sched_excl))"
    apply (rule after_take_step)
       apply (simp add: sched_excl_def eval_simps numeral_eq_Suc)
      apply simp
     apply (simp add: sched_excl_def)
    apply (simp add: sched_excl_def nth_append)
    done
  have r11: "reachable 2 1 (after (take 11 sched_excl))"
    by (rule reachable_after) (simp add: sched_excl_def eval_simps numeral_eq_Suc)
  have s11: "step 2 (0, 0, CallWrite) (after (take 11 sched_excl))
       = Some (after (take 12 sched_excl))"
    apply (rule after_take_step)
       apply (simp add: sched_excl_def eval_simps numeral_eq_Suc)
      apply simp
     apply (simp add: sched_excl_def)
    apply (simp add: sched_excl_def nth_append)
    done
  have r12: "reachable 2 1 (after (take 12 sched_excl))"
    by (rule reachable_after) (simp add: sched_excl_def eval_simps numeral_eq_Suc)
  have s12: "step 2 (0, 0, CallWrite) (after (take 12 sched_excl))
       = Some (after (take 13 sched_excl))"
    apply (rule after_take_step)
       apply (simp add: sched_excl_def eval_simps numeral_eq_Suc)
      apply simp
     apply (simp add: sched_excl_def)
    apply (simp add: sched_excl_def nth_append)
    done
  have r13: "reachable 2 1 (after (take 13 sched_excl))"
    by (rule reachable_after) (simp add: sched_excl_def eval_simps numeral_eq_Suc)
  have s13: "step 2 (0, 0, CallWrite) (after (take 13 sched_excl))
       = Some (after (take 14 sched_excl))"
    apply (rule after_take_step)
       apply (simp add: sched_excl_def eval_simps numeral_eq_Suc)
      apply simp
     apply (simp add: sched_excl_def)
    apply (simp add: sched_excl_def nth_append)
    done
  have r19: "reachable 2 1 (after (take 19 sched_excl))"
    by (rule reachable_after) (simp add: sched_excl_def eval_simps numeral_eq_Suc)
  have s19: "step 2 (0, 0, CallWrite) (after (take 19 sched_excl))
       = Some (after (take 20 sched_excl))"
    apply (rule after_take_step)
       apply (simp add: sched_excl_def eval_simps numeral_eq_Suc)
      apply simp
     apply (simp add: sched_excl_def)
    apply (simp add: sched_excl_def nth_append)
    done
  have r20: "reachable 2 1 (after (take 20 sched_excl))"
    by (rule reachable_after) (simp add: sched_excl_def eval_simps numeral_eq_Suc)
  have s20: "step 2 (0, 0, CallWrite) (after (take 20 sched_excl))
       = Some (after (take 21 sched_excl))"
    apply (rule after_take_step)
       apply (simp add: sched_excl_def eval_simps numeral_eq_Suc)
      apply simp
     apply (simp add: sched_excl_def)
    apply (simp add: sched_excl_def nth_append)
    done
  have m6: "writer_mutex (after (take 6 sched_excl)) = None"
    and m7: "writer_mutex (after (take 7 sched_excl)) = Some 0"
    using percpu_down_write_order [OF n r6 s6] p7 by blast+
  have w13: "slow_read_ctr (after (take 13 sched_excl)) \<noteq> 0"
    using percpu_down_write_order [OF n r13 s13] p14 by blast
  have f1: "writer_mutex (after (take 21 sched_excl)) = Some 0"
    and f2: "rw_writer (rw_sem (after (take 21 sched_excl)))"
    and f3: "fast_read_ctr (after (take 21 sched_excl)) = Some [0]"
    and f4: "slow_read_ctr (after (take 21 sched_excl)) = 0"
    using percpu_down_write_order [OF n r20 s20, unfolded o] p21 by blast+
  show ?thesis
    by (intro conjI; fact)
qed

section \<open>\<^verbatim>\<open>percpu_down_write\<close> with no reader\<close>





section \<open>\<^verbatim>\<open>percpu_down_read\<close>\<close>

lemma reachable_cpu:
  assumes "reachable n k s" and "pc_cpu (pcs s t) = Some c'"
  shows "\<exists>ctrs. fast_read_ctr s = Some ctrs \<and> length ctrs = k \<and> c' < length ctrs"
  using reachable_invariant [OF assms(1)] assms(2)
  by (auto simp: invariant_def inv_ctrs_def)

lemma reachable_nr_cpus: "reachable n k s \<Longrightarrow> nr_cpus s = k"
  using reachable_invariant [of n k s] by (auto simp: invariant_def inv_ctrs_def nr_cpus_def)

lemma barrier_waits_in_region:
  assumes "reachable n k s" and "in_region (pcs s t)" and "pcs s w = DownWrite (DW_sync S_call)"
  shows "\<exists>s'. step n (w, c, cl) s = Some s' \<and> t \<in> gp_pending s' w \<and> step n (w, c, cl) s' = None"
proof -
  have t: "t < n" using reachable_tid [OF assms(1), of t] assms(2) by (cases "pcs s t = Idle") auto
  have w: "w < n" using reachable_tid [OF assms(1), of w] assms(3) by auto
  show ?thesis
    using t w assms(2,3) by (auto simp: step_def set_pc_def)
qed

text \<open>
  C3. A task in \<^verbatim>\<open>percpu_down_read\<close>, in any reachable state. The call takes the task into
  \<^verbatim>\<open>update_fast_ctr\<close>, where \<^verbatim>\<open>preempt_disable\<close> fixes the cpu \<open>c\<close> the task runs on at that
  moment: from there to \<^verbatim>\<open>preempt_enable\<close> the task is inside a preemption-disabled
  section on that cpu, whatever cpu the scheduler names, and a barrier another task calls
  meanwhile waits for it. If the test, made on cpu \<open>c'\<close> inside that section, finds the mutex
  free, the next steps add 1 to the counter of cpu \<open>c'\<close>, enable preemption and return: none
  of them can block, whatever the other tasks do in between. If the test finds the mutex
  locked, the task enables preemption and takes the slow path: \<^verbatim>\<open>down_read\<close> (blocked while
  the rw-semaphore is held for writing), then \<^verbatim>\<open>atomic_inc\<close> of the slow counter, then
  \<^verbatim>\<open>up_read\<close>, and returns.
\<close>

theorem percpu_down_read_paths:
  assumes "reachable n ncpus s"
  shows "(pcs s t = Idle \<and> t < n \<longrightarrow>
          step n (t, c, CallRead) s = Some (set_pc t (DownRead (DR_ufc U_disable)) s))
   \<and> (pcs s t = DownRead (DR_ufc U_disable) \<longrightarrow>
        step n (t, c, cl) s =
          (if c < ncpus then Some (set_pc t (DownRead (DR_ufc (U_check c))) s) else None))
   \<and> (pcs s t = DownRead (DR_ufc u) \<and> preempt_disabled u \<longrightarrow>
        in_region (pcs s t) \<and> (\<exists>c'. ufc_cpu u = Some c' \<and> c' < ncpus))
   \<and> (pcs s t = DownRead (DR_ufc u) \<and> preempt_disabled u
        \<and> pcs s w = DownWrite (DW_sync S_call) \<longrightarrow>
        (\<exists>s'. step n (w, c, cl) s = Some s' \<and> t \<in> gp_pending s' w
           \<and> step n (w, c, cl) s' = None))
   \<and> (pcs s t = DownRead (DR_ufc (U_check c')) \<and> \<not> mutex_is_locked (writer_mutex s) \<longrightarrow>
          step n (t, c, cl) s = Some (set_pc t (DownRead (DR_ufc (U_add c'))) s))
   \<and> (pcs s t = DownRead (DR_ufc (U_add c')) \<longrightarrow>
        (\<exists>ctrs. fast_read_ctr s = Some ctrs \<and> c' < length ctrs
           \<and> step n (t, c, cl) s =
               Some (set_pc t (DownRead (DR_ufc (U_enable c' True)))
                      (s\<lparr>fast_read_ctr := Some (ctrs[c' := ctrs ! c' + 1])\<rparr>))))
   \<and> (pcs s t = DownRead (DR_ufc (U_enable c' True)) \<longrightarrow>
        step n (t, c, cl) s = Some (set_pc t InRead (preempt_enable t s)))
   \<and> (pcs s t = DownRead (DR_ufc (U_check c')) \<and> mutex_is_locked (writer_mutex s) \<longrightarrow>
        step n (t, c, cl) s = Some (set_pc t (DownRead (DR_ufc (U_enable c' False))) s))
   \<and> (pcs s t = DownRead (DR_ufc (U_enable c' False)) \<longrightarrow>
        step n (t, c, cl) s = Some (set_pc t (DownRead DR_down_read) (preempt_enable t s)))
   \<and> (pcs s t = DownRead DR_down_read \<longrightarrow>
        step n (t, c, cl) s =
          (if rw_writer (rw_sem s) then None
           else Some (set_pc t (DownRead DR_inc)
                  (s\<lparr>rw_sem := (rw_sem s)\<lparr>rw_readers := Suc (rw_readers (rw_sem s))\<rparr>\<rparr>))))
   \<and> (pcs s t = DownRead DR_inc \<longrightarrow>
        step n (t, c, cl) s =
          Some (set_pc t (DownRead DR_up_read) (s\<lparr>slow_read_ctr := slow_read_ctr s + 1\<rparr>)))
   \<and> (pcs s t = DownRead DR_up_read \<longrightarrow>
        step n (t, c, cl) s =
          Some (set_pc t InRead
                 (s\<lparr>rw_sem := (rw_sem s)\<lparr>rw_readers := rw_readers (rw_sem s) - 1\<rparr>\<rparr>)))"
proof -
  have tn: "pcs s t \<noteq> Idle \<longrightarrow> t < n"
    using assms by (auto intro: reachable_tid)
  have cpu: "pcs s t = DownRead (DR_ufc (U_add c')) \<longrightarrow>
      (\<exists>ctrs. fast_read_ctr s = Some ctrs \<and> c' < length ctrs)"
    using reachable_cpu [OF assms, of t c'] by auto
  have nc: "nr_cpus s = ncpus"
    using assms by (rule reachable_nr_cpus)
  have a: "pcs s t = Idle \<and> t < n \<longrightarrow>
          step n (t, c, CallRead) s = Some (set_pc t (DownRead (DR_ufc U_disable)) s)"
    by (simp add: step_def)
  have b: "pcs s t = DownRead (DR_ufc U_disable) \<longrightarrow>
        step n (t, c, cl) s =
          (if c < ncpus then Some (set_pc t (DownRead (DR_ufc (U_check c))) s) else None)"
    using tn nc by (auto simp: step_def)
  have r: "pcs s t = DownRead (DR_ufc u) \<and> preempt_disabled u \<longrightarrow>
        in_region (pcs s t) \<and> (\<exists>c'. ufc_cpu u = Some c' \<and> c' < ncpus)"
  proof (intro impI, elim conjE)
    assume p: "pcs s t = DownRead (DR_ufc u)" and d: "preempt_disabled u"
    from d obtain c0 where u: "ufc_cpu u = Some c0" by (cases u) auto
    then have "pc_cpu (pcs s t) = Some c0" using p by simp
    from reachable_cpu [OF assms this] have "c0 < ncpus" by auto
    then show "in_region (pcs s t) \<and> (\<exists>c'. ufc_cpu u = Some c' \<and> c' < ncpus)"
      using p d u by simp
  qed
  have g: "pcs s t = DownRead (DR_ufc u) \<and> preempt_disabled u
        \<and> pcs s w = DownWrite (DW_sync S_call) \<longrightarrow>
        (\<exists>s'. step n (w, c, cl) s = Some s' \<and> t \<in> gp_pending s' w
           \<and> step n (w, c, cl) s' = None)"
    using barrier_waits_in_region [OF assms, of t w c cl] by auto
  have rest: "(pcs s t = DownRead (DR_ufc (U_check c')) \<and> \<not> mutex_is_locked (writer_mutex s) \<longrightarrow>
          step n (t, c, cl) s = Some (set_pc t (DownRead (DR_ufc (U_add c'))) s))
   \<and> (pcs s t = DownRead (DR_ufc (U_add c')) \<longrightarrow>
        (\<exists>ctrs. fast_read_ctr s = Some ctrs \<and> c' < length ctrs
           \<and> step n (t, c, cl) s =
               Some (set_pc t (DownRead (DR_ufc (U_enable c' True)))
                      (s\<lparr>fast_read_ctr := Some (ctrs[c' := ctrs ! c' + 1])\<rparr>))))
   \<and> (pcs s t = DownRead (DR_ufc (U_enable c' True)) \<longrightarrow>
        step n (t, c, cl) s = Some (set_pc t InRead (preempt_enable t s)))
   \<and> (pcs s t = DownRead (DR_ufc (U_check c')) \<and> mutex_is_locked (writer_mutex s) \<longrightarrow>
        step n (t, c, cl) s = Some (set_pc t (DownRead (DR_ufc (U_enable c' False))) s))
   \<and> (pcs s t = DownRead (DR_ufc (U_enable c' False)) \<longrightarrow>
        step n (t, c, cl) s = Some (set_pc t (DownRead DR_down_read) (preempt_enable t s)))
   \<and> (pcs s t = DownRead DR_down_read \<longrightarrow>
        step n (t, c, cl) s =
          (if rw_writer (rw_sem s) then None
           else Some (set_pc t (DownRead DR_inc)
                  (s\<lparr>rw_sem := (rw_sem s)\<lparr>rw_readers := Suc (rw_readers (rw_sem s))\<rparr>\<rparr>))))
   \<and> (pcs s t = DownRead DR_inc \<longrightarrow>
        step n (t, c, cl) s =
          Some (set_pc t (DownRead DR_up_read) (s\<lparr>slow_read_ctr := slow_read_ctr s + 1\<rparr>)))
   \<and> (pcs s t = DownRead DR_up_read \<longrightarrow>
        step n (t, c, cl) s =
          Some (set_pc t InRead
                 (s\<lparr>rw_sem := (rw_sem s)\<lparr>rw_readers := rw_readers (rw_sem s) - 1\<rparr>\<rparr>)))"
    using tn cpu
    by (auto simp: step_def this_cpu_add_def down_read_def atomic_inc_def up_read_def)
  show ?thesis
    using a b r g rest by (intro conjI) blast+
qed

theorem percpu_down_read_paths_witness:
  "reachable 2 1 (after (take 2 sched_read_fast))
   \<and> pcs (after (take 2 sched_read_fast)) 1 = DownRead (DR_ufc (U_check 0))
   \<and> \<not> mutex_is_locked (writer_mutex (after (take 2 sched_read_fast)))
   \<and> step 2 (1, 0, CallRead) (after (take 2 sched_read_fast))
       = Some (set_pc 1 (DownRead (DR_ufc (U_add 0))) (after (take 2 sched_read_fast)))
   \<and> reachable 2 1 (after (take 3 sched_read_fast))
   \<and> pcs (after (take 3 sched_read_fast)) 1 = DownRead (DR_ufc (U_add 0))
   \<and> (\<exists>ctrs. fast_read_ctr (after (take 3 sched_read_fast)) = Some ctrs \<and> 0 <
       length ctrs
        \<and> step 2 (1, 0, CallRead) (after (take 3 sched_read_fast))
       = Some (set_pc 1 (DownRead (DR_ufc (U_enable 0 True))) ((after (take 3
           sched_read_fast))\<lparr>fast_read_ctr := Some (ctrs[0 := ctrs ! 0 + 1])\<rparr>)))
   \<and> reachable 2 1 (after (take 4 sched_read_fast))
   \<and> pcs (after (take 4 sched_read_fast)) 1 = DownRead (DR_ufc (U_enable 0 True))
   \<and> step 2 (1, 0, CallRead) (after (take 4 sched_read_fast))
       = Some (set_pc 1 InRead (preempt_enable 1 (after (take 4 sched_read_fast))))
   \<and> reachable 2 1 (after (take 4 sched_read_slow))
   \<and> pcs (after (take 4 sched_read_slow)) 1 = DownRead (DR_ufc (U_check 0))
   \<and> mutex_is_locked (writer_mutex (after (take 4 sched_read_slow)))
   \<and> step 2 (1, 0, CallRead) (after (take 4 sched_read_slow))
       = Some (set_pc 1 (DownRead (DR_ufc (U_enable 0 False))) (after (take 4 sched_read_slow)))
   \<and> reachable 2 1 (after (take 5 sched_read_slow))
   \<and> pcs (after (take 5 sched_read_slow)) 1 = DownRead (DR_ufc (U_enable 0 False))
   \<and> step 2 (1, 0, CallRead) (after (take 5 sched_read_slow))
       = Some (set_pc 1 (DownRead DR_down_read) (preempt_enable 1 (after (take 5 sched_read_slow))))
   \<and> reachable 2 1 (after (take 6 sched_read_slow))
   \<and> pcs (after (take 6 sched_read_slow)) 1 = DownRead DR_down_read
   \<and> step 2 (1, 0, CallRead) (after (take 6 sched_read_slow))
       = (if rw_writer (rw_sem (after (take 6 sched_read_slow))) then None
          else Some (set_pc 1 (DownRead DR_inc) ((after (take 6 sched_read_slow))\<lparr>rw_sem
              := (rw_sem (after (take 6 sched_read_slow)))\<lparr>rw_readers := Suc (rw_readers
              (rw_sem (after (take 6 sched_read_slow))))\<rparr>\<rparr>)))
   \<and> reachable 2 1 (after (take 7 sched_read_slow))
   \<and> pcs (after (take 7 sched_read_slow)) 1 = DownRead DR_inc
   \<and> step 2 (1, 0, CallRead) (after (take 7 sched_read_slow))
       = Some (set_pc 1 (DownRead DR_up_read) ((after (take 7
           sched_read_slow))\<lparr>slow_read_ctr := slow_read_ctr (after (take 7
           sched_read_slow)) + 1\<rparr>))
   \<and> reachable 2 1 (after (take 8 sched_read_slow))
   \<and> pcs (after (take 8 sched_read_slow)) 1 = DownRead DR_up_read
   \<and> step 2 (1, 0, CallRead) (after (take 8 sched_read_slow))
       = Some (set_pc 1 InRead ((after (take 8 sched_read_slow))\<lparr>rw_sem := (rw_sem (after
           (take 8 sched_read_slow)))\<lparr>rw_readers := rw_readers (rw_sem (after (take 8
           sched_read_slow))) - 1\<rparr>\<rparr>))
   \<and> reachable 2 2 (after_smp [])
   \<and> pcs (after_smp []) 1 = Idle
   \<and> step 2 (1, 1, CallRead) (after_smp [])
       = Some (set_pc 1 (DownRead (DR_ufc U_disable)) (after_smp []))
   \<and> reachable 2 2 (after_smp (take 1 sched_read_cpu1))
   \<and> pcs (after_smp (take 1 sched_read_cpu1)) 1 = DownRead (DR_ufc U_disable)
   \<and> step 2 (1, 1, CallRead) (after_smp (take 1 sched_read_cpu1))
       = Some (set_pc 1 (DownRead (DR_ufc (U_check 1))) (after_smp (take 1 sched_read_cpu1)))
   \<and> step 2 (1, 2, CallRead) (after_smp (take 1 sched_read_cpu1)) = None
   \<and> reachable 2 2 (after_smp (take 2 sched_read_cpu1))
   \<and> pcs (after_smp (take 2 sched_read_cpu1)) 1 = DownRead (DR_ufc (U_check 1))
   \<and> in_region (pcs (after_smp (take 2 sched_read_cpu1)) 1)
   \<and> \<not> mutex_is_locked (writer_mutex (after_smp (take 2 sched_read_cpu1)))
   \<and> step 2 (1, 0, CallRead) (after_smp (take 2 sched_read_cpu1))
       = Some (set_pc 1 (DownRead (DR_ufc (U_add 1))) (after_smp (take 2 sched_read_cpu1)))
   \<and> reachable 2 2 (after_smp (take 3 sched_read_cpu1))
   \<and> pcs (after_smp (take 3 sched_read_cpu1)) 1 = DownRead (DR_ufc (U_add 1))
   \<and> fast_read_ctr (after_smp (take 3 sched_read_cpu1)) = Some [0, 0]
   \<and> step 2 (1, 0, CallRead) (after_smp (take 3 sched_read_cpu1))
       = Some (set_pc 1 (DownRead (DR_ufc (U_enable 1 True)))
               ((after_smp (take 3 sched_read_cpu1))\<lparr>fast_read_ctr := Some [0, 1]\<rparr>))
   \<and> reachable 2 1 (after (replicate 2 (1, 0, CallRead) @ replicate 2 (0, 0, CallWrite)))
   \<and> pcs (after (replicate 2 (1, 0, CallRead) @ replicate 2 (0, 0, CallWrite))) 1
       = DownRead (DR_ufc (U_check 0))
   \<and> pcs (after (replicate 2 (1, 0, CallRead) @ replicate 2 (0, 0, CallWrite))) 0
       = DownWrite (DW_sync S_call)
   \<and> (\<exists>s'. step 2 (0, 0, CallWrite)
              (after (replicate 2 (1, 0, CallRead) @ replicate 2 (0, 0, CallWrite))) = Some s'
          \<and> 1 \<in> gp_pending s' 0 \<and> step 2 (0, 0, CallWrite) s' = None)"
proof -
  have r_fc: "reachable 2 1 (after (take 2 sched_read_fast))"
    by (rule reachable_after) (simp add: sched_read_fast_def eval_simps numeral_eq_Suc)
  have p_fc: "pcs (after (take 2 sched_read_fast)) 1 = DownRead (DR_ufc (U_check 0))"
    by (simp add: sched_read_fast_def after_simps)
  have e0_fc: "\<not> mutex_is_locked (writer_mutex (after (take 2 sched_read_fast)))"
    by (simp add: sched_read_fast_def after_simps)
  have c_fc: "step 2 (1, 0, CallRead) (after (take 2 sched_read_fast))
       = Some (set_pc 1 (DownRead (DR_ufc (U_add 0))) (after (take 2 sched_read_fast)))"
    using percpu_down_read_paths [OF r_fc, where t = 1 and c = 0 and c' = 0 and cl = CallRead] p_fc e0_fc by blast
  have r_fa: "reachable 2 1 (after (take 3 sched_read_fast))"
    by (rule reachable_after) (simp add: sched_read_fast_def eval_simps numeral_eq_Suc)
  have p_fa: "pcs (after (take 3 sched_read_fast)) 1 = DownRead (DR_ufc (U_add 0))"
    by (simp add: sched_read_fast_def after_simps)
  have c_fa: "\<exists>ctrs. fast_read_ctr (after (take 3 sched_read_fast)) = Some ctrs \<and> 0
      < length ctrs
        \<and> step 2 (1, 0, CallRead) (after (take 3 sched_read_fast))
       = Some (set_pc 1 (DownRead (DR_ufc (U_enable 0 True))) ((after (take 3
           sched_read_fast))\<lparr>fast_read_ctr := Some (ctrs[0 := ctrs ! 0 + 1])\<rparr>))"
    using percpu_down_read_paths [OF r_fa, where t = 1 and c = 0 and c' = 0 and cl = CallRead] p_fa  by blast
  have r_fe: "reachable 2 1 (after (take 4 sched_read_fast))"
    by (rule reachable_after) (simp add: sched_read_fast_def eval_simps numeral_eq_Suc)
  have p_fe: "pcs (after (take 4 sched_read_fast)) 1 = DownRead (DR_ufc (U_enable 0 True))"
    by (simp add: sched_read_fast_def after_simps)
  have c_fe: "step 2 (1, 0, CallRead) (after (take 4 sched_read_fast))
       = Some (set_pc 1 InRead (preempt_enable 1 (after (take 4 sched_read_fast))))"
    using percpu_down_read_paths [OF r_fe, where t = 1 and c = 0 and c' = 0 and cl = CallRead] p_fe  by blast
  have r_sc: "reachable 2 1 (after (take 4 sched_read_slow))"
    by (rule reachable_after) (simp add: sched_read_slow_def eval_simps numeral_eq_Suc)
  have p_sc: "pcs (after (take 4 sched_read_slow)) 1 = DownRead (DR_ufc (U_check 0))"
    by (simp add: sched_read_slow_def after_simps)
  have e0_sc: "mutex_is_locked (writer_mutex (after (take 4 sched_read_slow)))"
    by (simp add: sched_read_slow_def after_simps)
  have c_sc: "step 2 (1, 0, CallRead) (after (take 4 sched_read_slow))
       = Some (set_pc 1 (DownRead (DR_ufc (U_enable 0 False))) (after (take 4 sched_read_slow)))"
    using percpu_down_read_paths [OF r_sc, where t = 1 and c = 0 and c' = 0 and cl = CallRead] p_sc e0_sc by blast
  have r_se: "reachable 2 1 (after (take 5 sched_read_slow))"
    by (rule reachable_after) (simp add: sched_read_slow_def eval_simps numeral_eq_Suc)
  have p_se: "pcs (after (take 5 sched_read_slow)) 1 = DownRead (DR_ufc (U_enable 0 False))"
    by (simp add: sched_read_slow_def after_simps)
  have c_se: "step 2 (1, 0, CallRead) (after (take 5 sched_read_slow))
       = Some (set_pc 1 (DownRead DR_down_read) (preempt_enable 1 (after (take 5
           sched_read_slow))))"
    using percpu_down_read_paths [OF r_se, where t = 1 and c = 0 and c' = 0 and cl = CallRead] p_se  by blast
  have r_sd: "reachable 2 1 (after (take 6 sched_read_slow))"
    by (rule reachable_after) (simp add: sched_read_slow_def eval_simps numeral_eq_Suc)
  have p_sd: "pcs (after (take 6 sched_read_slow)) 1 = DownRead DR_down_read"
    by (simp add: sched_read_slow_def after_simps)
  have c_sd: "step 2 (1, 0, CallRead) (after (take 6 sched_read_slow))
       = (if rw_writer (rw_sem (after (take 6 sched_read_slow))) then None
          else Some (set_pc 1 (DownRead DR_inc) ((after (take 6 sched_read_slow))\<lparr>rw_sem
              := (rw_sem (after (take 6 sched_read_slow)))\<lparr>rw_readers := Suc (rw_readers
              (rw_sem (after (take 6 sched_read_slow))))\<rparr>\<rparr>)))"
    using percpu_down_read_paths [OF r_sd, where t = 1 and c = 0 and c' = 0 and cl = CallRead] p_sd  by blast
  have r_si: "reachable 2 1 (after (take 7 sched_read_slow))"
    by (rule reachable_after) (simp add: sched_read_slow_def eval_simps numeral_eq_Suc)
  have p_si: "pcs (after (take 7 sched_read_slow)) 1 = DownRead DR_inc"
    by (simp add: sched_read_slow_def after_simps)
  have c_si: "step 2 (1, 0, CallRead) (after (take 7 sched_read_slow))
       = Some (set_pc 1 (DownRead DR_up_read) ((after (take 7
           sched_read_slow))\<lparr>slow_read_ctr := slow_read_ctr (after (take 7
           sched_read_slow)) + 1\<rparr>))"
    using percpu_down_read_paths [OF r_si, where t = 1 and c = 0 and c' = 0 and cl = CallRead] p_si  by blast
  have r_su: "reachable 2 1 (after (take 8 sched_read_slow))"
    by (rule reachable_after) (simp add: sched_read_slow_def eval_simps numeral_eq_Suc)
  have p_su: "pcs (after (take 8 sched_read_slow)) 1 = DownRead DR_up_read"
    by (simp add: sched_read_slow_def after_simps)
  have c_su: "step 2 (1, 0, CallRead) (after (take 8 sched_read_slow))
       = Some (set_pc 1 InRead ((after (take 8 sched_read_slow))\<lparr>rw_sem := (rw_sem (after
           (take 8 sched_read_slow)))\<lparr>rw_readers := rw_readers (rw_sem (after (take 8
           sched_read_slow))) - 1\<rparr>\<rparr>))"
    using percpu_down_read_paths [OF r_su, where t = 1 and c = 0 and c' = 0 and cl = CallRead] p_su  by blast
  have l12: "(1::nat) < 2" by simp
  have r_m0: "reachable 2 2 (after_smp [])"
    by (rule reachable_after_smp) simp
  have p_m0: "pcs (after_smp []) 1 = Idle"
    by (simp add: after_smp_def eval_simps)
  have c_m0: "step 2 (1, 1, CallRead) (after_smp [])
       = Some (set_pc 1 (DownRead (DR_ufc U_disable)) (after_smp []))"
    using percpu_down_read_paths [OF r_m0, where t = 1 and c = 1] p_m0 l12 by blast
  have r_m1: "reachable 2 2 (after_smp (take 1 sched_read_cpu1))"
    by (rule reachable_after_smp) (simp add: sched_read_cpu1_def eval_simps numeral_eq_Suc)
  have p_m1: "pcs (after_smp (take 1 sched_read_cpu1)) 1 = DownRead (DR_ufc U_disable)"
    by (simp add: sched_read_cpu1_def after_smp_def eval_simps numeral_eq_Suc)
  have "step 2 (1, 1, CallRead) (after_smp (take 1 sched_read_cpu1))
       = (if (1::nat) < 2
          then Some (set_pc 1 (DownRead (DR_ufc (U_check 1))) (after_smp (take 1 sched_read_cpu1)))
          else None)"
    using percpu_down_read_paths [OF r_m1, where t = 1 and c = 1 and cl = CallRead] p_m1
    by blast
  then have c_m1: "step 2 (1, 1, CallRead) (after_smp (take 1 sched_read_cpu1))
       = Some (set_pc 1 (DownRead (DR_ufc (U_check 1))) (after_smp (take 1 sched_read_cpu1)))"
    by simp
  have "step 2 (1, 2, CallRead) (after_smp (take 1 sched_read_cpu1))
       = (if (2::nat) < 2
          then Some (set_pc 1 (DownRead (DR_ufc (U_check 2))) (after_smp (take 1 sched_read_cpu1)))
          else None)"
    using percpu_down_read_paths [OF r_m1, where t = 1 and c = 2 and cl = CallRead] p_m1
    by blast
  then have n_m1: "step 2 (1, 2, CallRead) (after_smp (take 1 sched_read_cpu1)) = None"
    by simp
  have r_m2: "reachable 2 2 (after_smp (take 2 sched_read_cpu1))"
    by (rule reachable_after_smp) (simp add: sched_read_cpu1_def eval_simps numeral_eq_Suc)
  have p_m2: "pcs (after_smp (take 2 sched_read_cpu1)) 1 = DownRead (DR_ufc (U_check 1))"
    by (simp add: sched_read_cpu1_def after_smp_def eval_simps numeral_eq_Suc)
  have d_m2: "preempt_disabled (U_check 1)" by simp
  have g_m2: "in_region (pcs (after_smp (take 2 sched_read_cpu1)) 1)"
    using percpu_down_read_paths [OF r_m2, where t = 1 and u = "U_check 1"] p_m2 d_m2
    by blast
  have e_m2: "\<not> mutex_is_locked (writer_mutex (after_smp (take 2 sched_read_cpu1)))"
    by (simp add: sched_read_cpu1_def after_smp_def eval_simps numeral_eq_Suc)
  have c_m2: "step 2 (1, 0, CallRead) (after_smp (take 2 sched_read_cpu1))
       = Some (set_pc 1 (DownRead (DR_ufc (U_add 1))) (after_smp (take 2 sched_read_cpu1)))"
    using percpu_down_read_paths [OF r_m2, where t = 1 and c = 0 and c' = 1 and cl = CallRead]
      p_m2 e_m2 by blast
  have r_m3: "reachable 2 2 (after_smp (take 3 sched_read_cpu1))"
    by (rule reachable_after_smp) (simp add: sched_read_cpu1_def eval_simps numeral_eq_Suc)
  have p_m3: "pcs (after_smp (take 3 sched_read_cpu1)) 1 = DownRead (DR_ufc (U_add 1))"
    by (simp add: sched_read_cpu1_def after_smp_def eval_simps numeral_eq_Suc)
  have f_m3: "fast_read_ctr (after_smp (take 3 sched_read_cpu1)) = Some [0, 0]"
    by (simp add: sched_read_cpu1_def after_smp_def eval_simps numeral_eq_Suc)
  obtain ctrs where x_m3: "fast_read_ctr (after_smp (take 3 sched_read_cpu1)) = Some ctrs"
    "step 2 (1, 0, CallRead) (after_smp (take 3 sched_read_cpu1))
       = Some (set_pc 1 (DownRead (DR_ufc (U_enable 1 True)))
               ((after_smp (take 3 sched_read_cpu1))\<lparr>fast_read_ctr
                  := Some (ctrs[1 := ctrs ! 1 + 1])\<rparr>))"
    using percpu_down_read_paths [OF r_m3, where t = 1 and c = 0 and c' = 1 and cl = CallRead]
      p_m3 by blast
  have "ctrs = [0, 0]" using x_m3(1) f_m3 by simp
  then have u_m3: "ctrs[1 := ctrs ! 1 + 1] = [0, 1]" by simp
  have c_m3: "step 2 (1, 0, CallRead) (after_smp (take 3 sched_read_cpu1))
       = Some (set_pc 1 (DownRead (DR_ufc (U_enable 1 True)))
               ((after_smp (take 3 sched_read_cpu1))\<lparr>fast_read_ctr := Some [0, 1]\<rparr>))"
    using x_m3(2) unfolding u_m3 .
  have r_b: "reachable 2 1 (after (replicate 2 (1, 0, CallRead) @ replicate 2 (0, 0, CallWrite)))"
    by (rule reachable_after) (simp add: eval_simps numeral_eq_Suc)
  have p_b: "pcs (after (replicate 2 (1, 0, CallRead) @ replicate 2 (0, 0, CallWrite))) 1
       = DownRead (DR_ufc (U_check 0))"
    by (simp add: after_simps)
  have q_b: "pcs (after (replicate 2 (1, 0, CallRead) @ replicate 2 (0, 0, CallWrite))) 0
       = DownWrite (DW_sync S_call)"
    by (simp add: after_simps)
  have d_b: "preempt_disabled (U_check 0)" by simp
  have c_b: "\<exists>s'. step 2 (0, 0, CallWrite)
              (after (replicate 2 (1, 0, CallRead) @ replicate 2 (0, 0, CallWrite))) = Some s'
          \<and> 1 \<in> gp_pending s' 0 \<and> step 2 (0, 0, CallWrite) s' = None"
    using percpu_down_read_paths [OF r_b, where t = 1 and w = 0 and u = "U_check 0"
        and c = 0 and cl = CallWrite] p_b q_b d_b by blast
  show ?thesis
    by (intro conjI; fact)
qed

section \<open>\<^verbatim>\<open>percpu_up_read\<close>\<close>

text \<open>
  C5. A task in \<^verbatim>\<open>percpu_up_read\<close>, in any reachable state. If its test finds the mutex
  locked, the fast path fails and the task comes to \<^verbatim>\<open>atomic_dec_and_test\<close>, which
  subtracts 1 from the slow counter. When the result is zero the task calls
  \<^verbatim>\<open>wake_up_all\<close> (one more wake-up on the queue, no task left asleep); when it is not zero,
  the wait queue is left as it was.
\<close>

theorem percpu_up_read_slow:
  assumes "reachable n ncpus s"
  shows "(pcs s t = UpRead (UR_ufc (U_check c')) \<and> mutex_is_locked (writer_mutex s) \<longrightarrow>
          step n (t, c, cl) s = Some (set_pc t (UpRead (UR_ufc (U_enable c' False))) s))
   \<and> (pcs s t = UpRead (UR_ufc (U_enable c' False)) \<longrightarrow>
        step n (t, c, cl) s = Some (set_pc t (UpRead UR_dec) (preempt_enable t s)))
   \<and> (pcs s t = UpRead UR_dec \<and> slow_read_ctr s - 1 = 0 \<longrightarrow>
        step n (t, c, cl) s =
          Some (set_pc t Idle
                 (s\<lparr>slow_read_ctr := 0,
                    write_waitq :=
                      \<lparr>sleepers = {}, wakeups = Suc (wakeups (write_waitq s))\<rparr>\<rparr>)))
   \<and> (pcs s t = UpRead UR_dec \<and> slow_read_ctr s - 1 \<noteq> 0 \<longrightarrow>
        step n (t, c, cl) s =
          Some (set_pc t Idle (s\<lparr>slow_read_ctr := slow_read_ctr s - 1\<rparr>)))"
proof -
  have tn: "pcs s t \<noteq> Idle \<longrightarrow> t < n"
    using assms by (auto intro: reachable_tid)
  show ?thesis
    using tn
    by (auto simp: step_def atomic_dec_and_test_def wake_up_all_def)
qed

theorem percpu_up_read_slow_witness:
  "reachable 2 1 (after (take 16 sched_excl))
   \<and> pcs (after (take 16 sched_excl)) 1 = UpRead (UR_ufc (U_check 0))
   \<and> mutex_is_locked (writer_mutex (after (take 16 sched_excl)))
   \<and> step 2 (1, 0, CallRead) (after (take 16 sched_excl))
       = Some (set_pc 1 (UpRead (UR_ufc (U_enable 0 False))) (after (take 16 sched_excl)))
   \<and> reachable 2 1 (after (take 17 sched_excl))
   \<and> pcs (after (take 17 sched_excl)) 1 = UpRead (UR_ufc (U_enable 0 False))
   \<and> step 2 (1, 0, CallRead) (after (take 17 sched_excl))
       = Some (set_pc 1 (UpRead UR_dec) (preempt_enable 1 (after (take 17 sched_excl))))
   \<and> reachable 2 1 (after (take 18 sched_excl))
   \<and> pcs (after (take 18 sched_excl)) 1 = UpRead UR_dec
   \<and> slow_read_ctr (after (take 18 sched_excl)) - 1 = 0
   \<and> write_waitq (after (take 18 sched_excl)) = \<lparr>sleepers = {0}, wakeups = 0\<rparr>
   \<and> step 2 (1, 0, CallRead) (after (take 18 sched_excl))
       = Some (set_pc 1 Idle ((after (take 18 sched_excl))\<lparr>slow_read_ctr := 0, write_waitq
           := \<lparr>sleepers = {}, wakeups = Suc (wakeups (write_waitq (after (take 18
           sched_excl))))\<rparr>\<rparr>))
   \<and> reachable 2 1 (after (take 11 sched_mismatch))
   \<and> pcs (after (take 11 sched_mismatch)) 1 = UpRead UR_dec
   \<and> slow_read_ctr (after (take 11 sched_mismatch)) - 1 \<noteq> 0
   \<and> step 2 (1, 0, CallRead) (after (take 11 sched_mismatch))
       = Some (set_pc 1 Idle ((after (take 11 sched_mismatch))\<lparr>slow_read_ctr :=
           slow_read_ctr (after (take 11 sched_mismatch)) - 1\<rparr>))"
proof -
  have r_c: "reachable 2 1 (after (take 16 sched_excl))"
    by (rule reachable_after) (simp add: sched_excl_def eval_simps numeral_eq_Suc)
  have p_c: "pcs (after (take 16 sched_excl)) 1 = UpRead (UR_ufc (U_check 0))"
    by (simp add: sched_excl_def after_simps)
  have e0_c: "mutex_is_locked (writer_mutex (after (take 16 sched_excl)))"
    by (simp add: sched_excl_def after_simps)
  have c_c: "step 2 (1, 0, CallRead) (after (take 16 sched_excl))
       = Some (set_pc 1 (UpRead (UR_ufc (U_enable 0 False))) (after (take 16 sched_excl)))"
    using percpu_up_read_slow [OF r_c, where t = 1 and c = 0 and c' = 0 and cl = CallRead] p_c e0_c by blast
  have r_e: "reachable 2 1 (after (take 17 sched_excl))"
    by (rule reachable_after) (simp add: sched_excl_def eval_simps numeral_eq_Suc)
  have p_e: "pcs (after (take 17 sched_excl)) 1 = UpRead (UR_ufc (U_enable 0 False))"
    by (simp add: sched_excl_def after_simps)
  have c_e: "step 2 (1, 0, CallRead) (after (take 17 sched_excl))
       = Some (set_pc 1 (UpRead UR_dec) (preempt_enable 1 (after (take 17 sched_excl))))"
    using percpu_up_read_slow [OF r_e, where t = 1 and c = 0 and c' = 0 and cl = CallRead] p_e  by blast
  have r_z: "reachable 2 1 (after (take 18 sched_excl))"
    by (rule reachable_after) (simp add: sched_excl_def eval_simps numeral_eq_Suc)
  have p_z: "pcs (after (take 18 sched_excl)) 1 = UpRead UR_dec"
    by (simp add: sched_excl_def after_simps)
  have e0_z: "slow_read_ctr (after (take 18 sched_excl)) - 1 = 0"
    by (simp add: sched_excl_def after_simps)
  have e1_z: "write_waitq (after (take 18 sched_excl)) = \<lparr>sleepers = {0}, wakeups =
      0\<rparr>"
    by (simp add: sched_excl_def after_simps)
  have c_z: "step 2 (1, 0, CallRead) (after (take 18 sched_excl))
       = Some (set_pc 1 Idle ((after (take 18 sched_excl))\<lparr>slow_read_ctr := 0, write_waitq
           := \<lparr>sleepers = {}, wakeups = Suc (wakeups (write_waitq (after (take 18
           sched_excl))))\<rparr>\<rparr>))"
    using percpu_up_read_slow [OF r_z, where t = 1 and c = 0 and c' = 0 and cl = CallRead] p_z e0_z e1_z by blast
  have r_n: "reachable 2 1 (after (take 11 sched_mismatch))"
    by (rule reachable_after) (simp add: sched_mismatch_def eval_simps numeral_eq_Suc)
  have p_n: "pcs (after (take 11 sched_mismatch)) 1 = UpRead UR_dec"
    by (simp add: sched_mismatch_def after_simps)
  have e0_n: "slow_read_ctr (after (take 11 sched_mismatch)) - 1 \<noteq> 0"
    by (simp add: sched_mismatch_def after_simps)
  have c_n: "step 2 (1, 0, CallRead) (after (take 11 sched_mismatch))
       = Some (set_pc 1 Idle ((after (take 11 sched_mismatch))\<lparr>slow_read_ctr :=
           slow_read_ctr (after (take 11 sched_mismatch)) - 1\<rparr>))"
    using percpu_up_read_slow [OF r_n, where t = 1 and c = 0 and c' = 0 and cl = CallRead] p_n e0_n by blast
  show ?thesis
    by (intro conjI; fact)
qed

section \<open>Readers with no writer\<close>






lemma sum_counted_le: "(\<Sum>u<n. unat (counted (pcs s u))) \<le> n"
proof -
  have "(\<Sum>u<n. unat (counted (pcs s u))) \<le> (\<Sum>u<n. 1)"
    by (rule sum_mono) (rule counted_le_1)
  then show ?thesis by simp
qed





section \<open>The release path does not follow the acquire path\<close>

text \<open>
  C7, as stated, fails: a reader that entered by the fast path leaves by the slow branch
  when a writer has taken the mutex in between.
\<close>

theorem release_matches_acquire_counterexample:
  "\<not> (\<forall>n k es t. release_matches_acquire None (pc_trace n t es (boot k)))"
proof
  assume "\<forall>n k es t. release_matches_acquire None (pc_trace n t es (boot k))"
  then have "release_matches_acquire None (pc_trace 2 1 sched_mismatch (boot 1))"
    by blast
  then show False
    by (simp add: sched_mismatch_def eval_simps numeral_eq_Suc)
qed

text \<open>
  C7, amended. The branch \<^verbatim>\<open>percpu_up_read\<close> takes depends only on its own test of the
  mutex: locked, the slow branch; free, the fast one; whichever path \<^verbatim>\<open>percpu_down_read\<close>
  took. No reader is lost by it: in every reachable state the fast counters, the slow
  counter and the sum the writer is moving from the ones to the other add up to the number
  of readers counted in (modulo \<open>2 ^ 32\<close>).
\<close>

theorem release_path_by_mutex:
  assumes "reachable n k s"
  shows "(pcs s t = UpRead (UR_ufc (U_check c')) \<longrightarrow>
          step n (t, c, cl) s =
            Some (set_pc t
              (UpRead (UR_ufc (if mutex_is_locked (writer_mutex s) then U_enable c' False
                               else U_add c'))) s))
     \<and> (\<exists>ctrs. fast_read_ctr s = Some ctrs
          \<and> sum_list ctrs + slow_read_ctr s + in_flight (writer_pc s)
              = (\<Sum>u<n. counted (pcs s u)))"
proof -
  have tn: "pcs s t \<noteq> Idle \<longrightarrow> t < n"
    using assms by (auto intro: reachable_tid)
  have a: "pcs s t = UpRead (UR_ufc (U_check c')) \<longrightarrow>
          step n (t, c, cl) s =
            Some (set_pc t
              (UpRead (UR_ufc (if mutex_is_locked (writer_mutex s) then U_enable c' False
                               else U_add c'))) s)"
    using tn by (auto simp: step_def)
  have "inv_count n s"
    using reachable_invariant [OF assms] by (simp add: invariant_def)
  then have b: "\<exists>ctrs. fast_read_ctr s = Some ctrs
          \<and> sum_list ctrs + slow_read_ctr s + in_flight (writer_pc s)
              = (\<Sum>u<n. counted (pcs s u))"
    by (auto simp: inv_count_def)
  show ?thesis using a b by blast
qed

theorem release_path_by_mutex_witness:
  "reachable 2 1 (after (replicate 5 (1, 0, CallRead) @ replicate 2 (0, 0, CallWrite)
                          @ replicate 2 (1, 0, CallRead)))
   \<and> pcs (after (replicate 5 (1, 0, CallRead) @ replicate 2 (0, 0, CallWrite)
                          @ replicate 2 (1, 0, CallRead))) 1 = UpRead (UR_ufc (U_check 0))
   \<and> mutex_is_locked (writer_mutex (after (replicate 5 (1, 0, CallRead)
                          @ replicate 2 (0, 0, CallWrite) @ replicate 2 (1, 0, CallRead))))
   \<and> step 2 (1, 0, CallRead) (after (replicate 5 (1, 0, CallRead) @ replicate 2 (0, 0,
       CallWrite)
                          @ replicate 2 (1, 0, CallRead)))
       = Some (set_pc 1 (UpRead (UR_ufc (U_enable 0 False)))
                (after (replicate 5 (1, 0, CallRead) @ replicate 2 (0, 0, CallWrite)
                          @ replicate 2 (1, 0, CallRead))))"
proof -
  let ?es = "replicate 5 (1, 0, CallRead) @ replicate 2 (0, 0, CallWrite)
                          @ replicate 2 (1, 0, CallRead)"
  have r: "reachable 2 1 (after ?es)"
    by (rule reachable_after) (simp add: eval_simps numeral_eq_Suc)
  have p: "pcs (after ?es) 1 = UpRead (UR_ufc (U_check 0))"
    by (simp add: after_simps)
  have m: "mutex_is_locked (writer_mutex (after ?es))"
    by (simp add: after_simps)
  show ?thesis
    using release_path_by_mutex [OF r, of 1 0 0 CallRead] r p m by simp
qed

section \<open>Counter arithmetic\<close>

lemma word_of_nat_max_32: "(word_of_nat 4294967295 :: 32 word) = - 1"
  by simp

lemma counted_step:
  assumes "step n (t, c, cl) s = Some s'"
  shows "t < n \<and> pcs s' = (pcs s)(t := pcs s' t)
     \<and> int (unat (counted (pcs s' t))) = int (unat (counted (pcs s t))) + exact_delta (pcs s t)"
  using step_disj [OF assms]
  by (elim disjE exE conjE) (simp_all add: fun_eq_iff)

lemma sum_counted_step:
  assumes "step n (t, c, cl) s = Some s'"
  shows "int (\<Sum>u<n. unat (counted (pcs s' u)))
       = int (\<Sum>u<n. unat (counted (pcs s u))) + exact_delta (pcs s t)"
proof -
  have t: "t < n" and p: "pcs s' = (pcs s)(t := pcs s' t)"
    and d: "int (unat (counted (pcs s' t))) = int (unat (counted (pcs s t))) + exact_delta (pcs s t)"
    using counted_step [OF assms] by blast+
  have i: "t \<in> {..<n}" using t by simp
  have r: "(\<Sum>u\<in>{..<n} - {t}. unat (counted (pcs s' u)))
         = (\<Sum>u\<in>{..<n} - {t}. unat (counted (pcs s u)))"
    by (rule sum.cong) (use p in \<open>auto simp: fun_eq_iff\<close>)
  have a: "(\<Sum>u<n. unat (counted (pcs s' u)))
      = unat (counted (pcs s' t)) + (\<Sum>u\<in>{..<n} - {t}. unat (counted (pcs s u)))"
    unfolding r [symmetric] by (rule sum.remove [OF finite_lessThan i])
  have b: "(\<Sum>u<n. unat (counted (pcs s u)))
      = unat (counted (pcs s t)) + (\<Sum>u\<in>{..<n} - {t}. unat (counted (pcs s u)))"
    by (rule sum.remove [OF finite_lessThan i])
  show ?thesis
    unfolding a b using d by simp
qed

lemma run_balance:
  assumes "run n es s0 = Some s"
  shows "int (\<Sum>u<n. unat (counted (pcs s u)))
       = int (\<Sum>u<n. unat (counted (pcs s0 u))) + exact_balance n es s0"
  using assms
proof (induction es arbitrary: s0)
  case Nil
  then show ?case by simp
next
  case (Cons e es)
  obtain t c cl where e: "e = (t, c, cl)" by (cases e)
  from Cons.prems obtain s1 where st: "step n (t, c, cl) s0 = Some s1"
    and r: "run n es s1 = Some s"
    by (auto simp: e split: option.splits)
  show ?case
    using Cons.IH [OF r] sum_counted_step [OF st] st by (simp add: e)
qed

lemma counted_boot: "(\<Sum>u<n. unat (counted (pcs (boot k) u))) = 0"
  by (simp add: boot_simps)

lemma word_add_max_32: "(x :: 32 word) + (- 1) = word_of_nat (unat x + 4294967295)"
  by simp

text \<open>
  C10. Along every run from the start, whatever the interleaving. The \<^verbatim>\<open>-1\<close> of
  \<^verbatim>\<open>percpu_up_read\<close> reaches \<^verbatim>\<open>update_fast_ctr\<close> as the \<^verbatim>\<open>unsigned int\<close> 4294967295: the
  \<^verbatim>\<open>__this_cpu_add\<close> of \<^verbatim>\<open>percpu_up_read\<close> leaves in its cpu's counter the unsigned sum of
  the counter and 4294967295, modulo \<open>2 ^ 32\<close>. After the run, whatever single counters have
  become, the sum of the per-cpu counters, the slow counter and the sum a writer has taken
  out are together the increments minus the decrements of the run in exact integer
  arithmetic, modulo \<open>2 ^ 32\<close>; \<^verbatim>\<open>clear_fast_ctr\<close> returns the unsigned sum of the per-cpu
  counters; and where no writer holds a sum, the drain leaves the slow counter at that exact
  number modulo \<open>2 ^ 32\<close>. The exact number is the number of readers counted in at that
  moment, and with fewer than \<open>2 ^ 31\<close> tasks the slow counter read as an \<^verbatim>\<open>int\<close> is that
  number itself.
\<close>

theorem counter_arithmetic_exact:
  assumes "run n es (boot ncpus) = Some s"
  shows "(pcs s t = UpRead (UR_ufc (U_add c')) \<longrightarrow>
        (\<exists>ctrs. fast_read_ctr s = Some ctrs \<and> c' < length ctrs
           \<and> step n (t, c, cl) s =
               Some (set_pc t (UpRead (UR_ufc (U_enable c' True)))
                 (s\<lparr>fast_read_ctr :=
                      Some (ctrs[c' := word_of_nat (unat (ctrs ! c') + 4294967295)])\<rparr>))))
     \<and> percpu_up_read_step t c (UR_ufc (U_add c')) s =
         (case this_cpu_add c' (word_of_nat 4294967295) s of
            None \<Rightarrow> None
          | Some s' \<Rightarrow> Some (set_pc t (UpRead (UR_ufc (U_enable c' True))) s'))
     \<and> (\<exists>ctrs. fast_read_ctr s = Some ctrs \<and> length ctrs = ncpus
          \<and> sum_list ctrs + slow_read_ctr s + in_flight (writer_pc s)
              = word_of_int (exact_balance n es (boot ncpus))
          \<and> clear_fast_ctr s
              = Some (sum_list ctrs, s\<lparr>fast_read_ctr := Some (replicate ncpus 0)\<rparr>)
          \<and> (in_flight (writer_pc s) = 0 \<longrightarrow>
               drain s =
                 Some (s\<lparr>fast_read_ctr := Some (replicate ncpus 0),
                         slow_read_ctr := word_of_int (exact_balance n es (boot ncpus))\<rparr>)))
     \<and> exact_balance n es (boot ncpus) = int (\<Sum>u<n. unat (counted (pcs s u)))
     \<and> (n < 2 ^ 31 \<longrightarrow>
          sint (word_of_int (exact_balance n es (boot ncpus)) :: 32 word)
            = exact_balance n es (boot ncpus))"
proof -
  have re: "reachable n ncpus s"
    using reachable_run [OF reachable_boot assms] .
  have i: "invariant n ncpus s" using re by (rule reachable_invariant)
  have tn: "pcs s t \<noteq> Idle \<longrightarrow> t < n"
    using re by (auto intro: reachable_tid)
  obtain ctrs where f: "fast_read_ctr s = Some ctrs" and l: "length ctrs = ncpus"
    using i by (auto simp: invariant_def inv_ctrs_def)
  have cnt: "(\<Sum>u<n. counted (pcs s u))
      = sum_list ctrs + slow_read_ctr s + in_flight (writer_pc s)"
    using i f by (auto simp: invariant_def inv_count_def)
  have bal: "exact_balance n es (boot ncpus) = int (\<Sum>u<n. unat (counted (pcs s u)))"
    using run_balance [OF assms] unfolding counted_boot by simp
  have w: "sum_list ctrs + slow_read_ctr s + in_flight (writer_pc s)
              = word_of_int (exact_balance n es (boot ncpus))"
    unfolding bal cnt [symmetric] by simp
  have cl: "clear_fast_ctr s
              = Some (sum_list ctrs, s\<lparr>fast_read_ctr := Some (replicate ncpus 0)\<rparr>)"
    using clear_fast_ctr_Some [OF f] l by simp
  have dr: "in_flight (writer_pc s) = 0 \<longrightarrow>
               drain s =
                 Some (s\<lparr>fast_read_ctr := Some (replicate ncpus 0),
                         slow_read_ctr := word_of_int (exact_balance n es (boot ncpus))\<rparr>)"
    using cl w by (auto simp: drain_def atomic_add_def ac_simps)
  have a: "pcs s t = UpRead (UR_ufc (U_add c')) \<longrightarrow>
        (\<exists>ctrs. fast_read_ctr s = Some ctrs \<and> c' < length ctrs
           \<and> step n (t, c, cl) s =
               Some (set_pc t (UpRead (UR_ufc (U_enable c' True)))
                 (s\<lparr>fast_read_ctr :=
                      Some (ctrs[c' := word_of_nat (unat (ctrs ! c') + 4294967295)])\<rparr>)))"
  proof
    assume p: "pcs s t = UpRead (UR_ufc (U_add c'))"
    then have "pc_cpu (pcs s t) = Some c'" by simp
    from reachable_cpu [OF re this] f have c: "c' < length ctrs" by simp
    have t: "t < n" using tn p by simp
    have "step n (t, c, cl) s =
               Some (set_pc t (UpRead (UR_ufc (U_enable c' True)))
                 (s\<lparr>fast_read_ctr := Some (ctrs[c' := ctrs ! c' + (- 1)])\<rparr>))"
      using p t f c by (simp add: step_def this_cpu_add_def)
    then show "\<exists>ctrs. fast_read_ctr s = Some ctrs \<and> c' < length ctrs
           \<and> step n (t, c, cl) s =
               Some (set_pc t (UpRead (UR_ufc (U_enable c' True)))
                 (s\<lparr>fast_read_ctr :=
                      Some (ctrs[c' := word_of_nat (unat (ctrs ! c') + 4294967295)])\<rparr>))"
      using f c unfolding word_add_max_32 by blast
  qed
  have b: "percpu_up_read_step t c (UR_ufc (U_add c')) s =
         (case this_cpu_add c' (word_of_nat 4294967295) s of
            None \<Rightarrow> None
          | Some s' \<Rightarrow> Some (set_pc t (UpRead (UR_ufc (U_enable c' True))) s'))"
    unfolding word_of_nat_max_32 by (simp split: option.splits)
  have e: "n < 2 ^ 31 \<longrightarrow>
          sint (word_of_int (exact_balance n es (boot ncpus)) :: 32 word)
            = exact_balance n es (boot ncpus)"
  proof
    assume n: "n < 2 ^ 31"
    let ?S = "\<Sum>u<n. unat (counted (pcs s u))"
    have "?S < 2 ^ 31" using sum_counted_le [where n = n and s = s] n by linarith
    then have "int ?S < int (2 ^ 31)" by (simp only: of_nat_less_iff)
    then have "int ?S < 2 ^ 31" by (simp only: of_nat_power of_nat_numeral)
    moreover have "- (2 ^ 31) \<le> int ?S"
      by (rule order_trans [OF _ of_nat_0_le_iff]) simp
    ultimately have "sint (word_of_int (int ?S) :: 32 word) = int ?S"
      by (intro sint_word_of_int_32)
    then show "sint (word_of_int (exact_balance n es (boot ncpus)) :: 32 word)
            = exact_balance n es (boot ncpus)"
      unfolding bal .
  qed
  have m: "\<exists>ctrs. fast_read_ctr s = Some ctrs \<and> length ctrs = ncpus
          \<and> sum_list ctrs + slow_read_ctr s + in_flight (writer_pc s)
              = word_of_int (exact_balance n es (boot ncpus))
          \<and> clear_fast_ctr s
              = Some (sum_list ctrs, s\<lparr>fast_read_ctr := Some (replicate ncpus 0)\<rparr>)
          \<and> (in_flight (writer_pc s) = 0 \<longrightarrow>
               drain s =
                 Some (s\<lparr>fast_read_ctr := Some (replicate ncpus 0),
                         slow_read_ctr := word_of_int (exact_balance n es (boot ncpus))\<rparr>))"
    using f l w cl dr by blast
  show ?thesis
    using a b m bal e by (intro conjI)
qed

theorem counter_arithmetic_exact_witness:
  "run 2 (take 8 sched_recount) (boot 2) = Some (after_smp (take 8 sched_recount))
   \<and> pcs (after_smp (take 8 sched_recount)) 0 = UpRead (UR_ufc (U_add 1))
   \<and> fast_read_ctr (after_smp (take 8 sched_recount)) = Some [1, 0]
   \<and> step 2 (0, 1, CallRead) (after_smp (take 8 sched_recount))
       = Some (set_pc 0 (UpRead (UR_ufc (U_enable 1 True)))
               ((after_smp (take 8 sched_recount))\<lparr>fast_read_ctr := Some [1, - 1]\<rparr>))
   \<and> unat (- 1 :: 32 word) = 4294967295
   \<and> sint (- 1 :: 32 word) < 0
   \<and> run 2 sched_recount (boot 2) = Some (after_smp sched_recount)
   \<and> fast_read_ctr (after_smp sched_recount) = Some [2, - 1]
   \<and> slow_read_ctr (after_smp sched_recount) = 0
   \<and> in_flight (writer_pc (after_smp sched_recount)) = 0
   \<and> exact_balance 2 sched_recount (boot 2) = 1
   \<and> clear_fast_ctr (after_smp sched_recount)
       = Some (1, (after_smp sched_recount)\<lparr>fast_read_ctr := Some [0, 0]\<rparr>)
   \<and> drain (after_smp sched_recount)
       = Some ((after_smp sched_recount)\<lparr>fast_read_ctr := Some [0, 0], slow_read_ctr := 1\<rparr>)
   \<and> sint (word_of_int (exact_balance 2 sched_recount (boot 2)) :: 32 word) = 1"
proof -
  have "run 2 (take 8 sched_recount) (boot 2) \<noteq> None"
    by (simp add: sched_recount_def eval_simps numeral_eq_Suc)
  then have r8: "run 2 (take 8 sched_recount) (boot 2) = Some (after_smp (take 8 sched_recount))"
    by (auto simp: after_smp_def)
  have p8: "pcs (after_smp (take 8 sched_recount)) 0 = UpRead (UR_ufc (U_add 1))"
    by (simp add: sched_recount_def after_smp_def eval_simps numeral_eq_Suc)
  have f8: "fast_read_ctr (after_smp (take 8 sched_recount)) = Some [1, 0]"
    by (simp add: sched_recount_def after_smp_def eval_simps numeral_eq_Suc)
  obtain ctrs where x8: "fast_read_ctr (after_smp (take 8 sched_recount)) = Some ctrs"
    "step 2 (0, 1, CallRead) (after_smp (take 8 sched_recount))
       = Some (set_pc 0 (UpRead (UR_ufc (U_enable 1 True)))
               ((after_smp (take 8 sched_recount))\<lparr>fast_read_ctr :=
                  Some (ctrs[1 := word_of_nat (unat (ctrs ! 1) + 4294967295)])\<rparr>))"
    using counter_arithmetic_exact [OF r8, where t = 0 and c' = 1 and c = 1 and cl = CallRead]
      p8 by blast
  have "ctrs = [1, 0]" using x8(1) f8 by simp
  then have u8: "ctrs[1 := word_of_nat (unat (ctrs ! 1) + 4294967295)] = [1, - 1]"
    by simp
  have s8: "step 2 (0, 1, CallRead) (after_smp (take 8 sched_recount))
       = Some (set_pc 0 (UpRead (UR_ufc (U_enable 1 True)))
               ((after_smp (take 8 sched_recount))\<lparr>fast_read_ctr := Some [1, - 1]\<rparr>))"
    using x8(2) unfolding u8 .
  have m1: "unat (- 1 :: 32 word) = 4294967295"
    by (simp add: unsigned_minus_1_eq_mask mask_eq_exp_minus_1)
  have m2: "sint (- 1 :: 32 word) < 0"
    by simp
  have "run 2 sched_recount (boot 2) \<noteq> None"
    by (simp add: sched_recount_def eval_simps numeral_eq_Suc)
  then have r: "run 2 sched_recount (boot 2) = Some (after_smp sched_recount)"
    by (auto simp: after_smp_def)
  have f: "fast_read_ctr (after_smp sched_recount) = Some [2, - 1]"
    by (simp add: sched_recount_def after_smp_def eval_simps numeral_eq_Suc)
  have sl: "slow_read_ctr (after_smp sched_recount) = 0"
    by (simp add: sched_recount_def after_smp_def eval_simps numeral_eq_Suc)
  have fl: "in_flight (writer_pc (after_smp sched_recount)) = 0"
    by (simp add: sched_recount_def after_smp_def writer_pc_def eval_simps numeral_eq_Suc)
  have cn: "(\<Sum>u<2. unat (counted (pcs (after_smp sched_recount) u))) = 1"
    by (simp add: sched_recount_def after_smp_def eval_simps numeral_eq_Suc lessThan_Suc)
  note th = counter_arithmetic_exact [OF r]
  have b: "exact_balance 2 sched_recount (boot 2) = 1"
    using th unfolding cn by simp
  have o: "replicate 2 (0 :: 32 word) = [0, 0]"
    by (simp add: numeral_eq_Suc)
  have n: "(2::nat) < 2 ^ 31" by simp
  obtain ctrs' where y: "fast_read_ctr (after_smp sched_recount) = Some ctrs'"
    "clear_fast_ctr (after_smp sched_recount)
       = Some (sum_list ctrs', (after_smp sched_recount)\<lparr>fast_read_ctr := Some (replicate 2 0)\<rparr>)"
    "in_flight (writer_pc (after_smp sched_recount)) = 0 \<longrightarrow>
       drain (after_smp sched_recount)
         = Some ((after_smp sched_recount)\<lparr>fast_read_ctr := Some (replicate 2 0),
              slow_read_ctr := word_of_int (exact_balance 2 sched_recount (boot 2))\<rparr>)"
    using th by blast
  have "ctrs' = [2, - 1]" using y(1) f by simp
  then have sm: "sum_list ctrs' = 1" by simp
  have c: "clear_fast_ctr (after_smp sched_recount)
       = Some (1, (after_smp sched_recount)\<lparr>fast_read_ctr := Some [0, 0]\<rparr>)"
    using y(2) unfolding sm o .
  have d: "drain (after_smp sched_recount)
       = Some ((after_smp sched_recount)\<lparr>fast_read_ctr := Some [0, 0], slow_read_ctr := 1\<rparr>)"
    using y(3) fl unfolding b o by simp
  have e: "sint (word_of_int (exact_balance 2 sched_recount (boot 2)) :: 32 word) = 1"
    using th n unfolding b by blast
  show ?thesis
    by (intro conjI; fact)
qed

end
